theory Spec2Isabelle
  imports Main "HOL-Library.Multiset"
begin

section \<open>Data model of sim.py\<close>

text \<open>
  The pattern engine of sim.py: cards, hands, the condition classes and their
  enumeration of position sets. Python exceptions are values of \<open>error\<close>:
  \<^item> \<open>InvalidHandSize\<close> is the \<^verbatim>\<open>Exception("Invalid number of cards")\<close> of \<^verbatim>\<open>Hand.__init__\<close>;
  \<^item> \<open>RecursionError\<close> is what unbounded recursion raises (\<^verbatim>\<open>get_combinations([])\<close>);
  \<^item> \<open>IndexError\<close> is a list access or \<^verbatim>\<open>del\<close> out of range.
\<close>

datatype error = InvalidHandSize | RecursionError | IndexError

record Card =
  colour :: string
  number :: int
  type :: string

definition Card_init :: "string \<Rightarrow> int \<Rightarrow> Card" where
  "Card_init c n = \<lparr>colour = c, number = n, type = ''normal''\<rparr>"

record Hand =
  cards :: "Card list"

definition Hand_init :: "Card list \<Rightarrow> error + Hand" where
  "Hand_init cs =
     (if length cs < 10 \<or> length cs > 10 then Inl InvalidHandSize
      else Inr \<lparr>cards = cs\<rparr>)"

text \<open>
  The condition classes. \<^verbatim>\<open>Condition.__init__\<close> stores \<^verbatim>\<open>required_number\<close> and
  \<^verbatim>\<open>sub_conditions\<close> and checks nothing; \<^verbatim>\<open>GroupCondition.__init__\<close> passes the
  required number 0 to it.
\<close>

datatype Condition =
    SameNumber int
  | SameColour int
  | AnyList int
  | SameColourList int
  | GroupCondition "Condition list"

fun required_number :: "Condition \<Rightarrow> int" where
  "required_number (SameNumber k) = k"
| "required_number (SameColour k) = k"
| "required_number (AnyList k) = k"
| "required_number (SameColourList k) = k"
| "required_number (GroupCondition cs) = 0"

fun sub_conditions :: "Condition \<Rightarrow> Condition list" where
  "sub_conditions (GroupCondition cs) = cs"
| "sub_conditions c = []"

definition SameNumber_init :: "int \<Rightarrow> error + Condition" where
  "SameNumber_init k = Inr (SameNumber k)"

definition SameColour_init :: "int \<Rightarrow> error + Condition" where
  "SameColour_init k = Inr (SameColour k)"

definition AnyList_init :: "int \<Rightarrow> error + Condition" where
  "AnyList_init k = Inr (AnyList k)"

definition SameColourList_init :: "int \<Rightarrow> error + Condition" where
  "SameColourList_init k = Inr (SameColourList k)"

definition GroupCondition_init :: "Condition list \<Rightarrow> error + Condition" where
  "GroupCondition_init cs = Inr (GroupCondition cs)"

section \<open>Python helpers\<close>

text \<open>\<^verbatim>\<open>a in b\<close> on strings: \<open>a\<close> occurs in \<open>b\<close> as a contiguous substring.\<close>

fun startswith :: "string \<Rightarrow> string \<Rightarrow> bool" where
  "startswith s [] = True"
| "startswith [] (p # ps) = False"
| "startswith (c # cs) (p # ps) = (c = p \<and> startswith cs ps)"

fun str_in :: "string \<Rightarrow> string \<Rightarrow> bool" where
  "str_in a [] = (a = [])"
| "str_in a (c # cs) = (startswith (c # cs) a \<or> str_in a cs)"

text \<open>
  Iterating a Python set. The language does not fix the order: CPython walks the
  hash table, so the order depends on the hashes (for strings, on the hash seed of
  the process) and on how the set was built. The model therefore takes the order
  as a parameter, one function for every place where sim.py iterates a set:
  \<^item> \<open>numbers_order\<close>: \<^verbatim>\<open>set([card.number ...])\<close> in \<^verbatim>\<open>SameNumber.candidates\<close>, from the
    list the set is built from;
  \<^item> \<open>colours_order\<close>: \<^verbatim>\<open>set([card.colour ...])\<close> in \<^verbatim>\<open>SameColour.candidates\<close>;
  \<^item> \<open>slot_order\<close>: a slot of a streak in \<^verbatim>\<open>get_combinations\<close>;
  \<^item> \<open>result_order\<close>: the set at index \<open>i\<close> of \<^verbatim>\<open>all_list_possibilities\<close> in
    \<^verbatim>\<open>SameColourList(k).possibilities\<close>, iterated by \<^verbatim>\<open>all_same_colour\<close>.
  \<open>iteration_ok\<close> says that each function lists the elements of the set, each once.
  Every result below holds for every such parameter. \<open>ascending\<close> is one of them.
\<close>

record iteration =
  numbers_order :: "int list \<Rightarrow> int list"
  colours_order :: "string list \<Rightarrow> string list"
  slot_order :: "nat set \<Rightarrow> nat list"
  result_order :: "int \<Rightarrow> nat \<Rightarrow> nat set \<Rightarrow> nat list"

definition iteration_ok :: "iteration \<Rightarrow> bool" where
  "iteration_ok it =
     ((\<forall>xs. distinct (numbers_order it xs) \<and> set (numbers_order it xs) = set xs) \<and>
      (\<forall>xs. distinct (colours_order it xs) \<and> set (colours_order it xs) = set xs) \<and>
      (\<forall>S. finite S \<longrightarrow> distinct (slot_order it S) \<and> set (slot_order it S) = S) \<and>
      (\<forall>k i S. finite S \<longrightarrow>
         distinct (result_order it k i S) \<and> set (result_order it k i S) = S))"

definition ascending :: iteration where
  "ascending =
     \<lparr>numbers_order = remdups, colours_order = remdups,
      slot_order = sorted_list_of_set, result_order = (\<lambda>k i. sorted_list_of_set)\<rparr>"

text \<open>\<^verbatim>\<open>xs[start:stop]\<close> with Python's treatment of negative and too large bounds.\<close>

definition py_slice :: "'a list \<Rightarrow> int \<Rightarrow> int \<Rightarrow> 'a list" where
  "py_slice xs start stop =
     (let n = int (length xs);
          s = (if start < 0 then max (start + n) 0 else min start n);
          e = (if stop < 0 then max (stop + n) 0 else min stop n)
      in take (nat (e - s)) (drop (nat s) xs))"

text \<open>\<^verbatim>\<open>del xs[i]\<close> for \<open>i \<ge> 0\<close>.\<close>

definition del_at :: "'a list \<Rightarrow> nat \<Rightarrow> error + 'a list" where
  "del_at xs i =
     (if i < length xs then Inr (take i xs @ drop (Suc i) xs) else Inl IndexError)"

text \<open>
  A loop \<^verbatim>\<open>for i in is: acc.extend(f(i))\<close> whose body may raise: the first
  exception ends the loop.
\<close>

fun for_extend :: "'i list \<Rightarrow> ('i \<Rightarrow> error + 'a list) \<Rightarrow> error + 'a list" where
  "for_extend [] f = Inr []"
| "for_extend (i # is) f =
     (case f i of
        Inl e \<Rightarrow> Inl e
      | Inr ys \<Rightarrow> (case for_extend is f of Inl e \<Rightarrow> Inl e | Inr zs \<Rightarrow> Inr (ys @ zs)))"

lemma for_extend_cong [fundef_cong]:
  "is = js \<Longrightarrow> (\<And>i. i \<in> set js \<Longrightarrow> f i = g i) \<Longrightarrow> for_extend is f = for_extend js g"
proof -
  assume eq: "is = js" and fg: "\<And>i. i \<in> set js \<Longrightarrow> f i = g i"
  have "(\<forall>i \<in> set js. f i = g i) \<Longrightarrow> for_extend js f = for_extend js g"
    by (induction js) (auto split: sum.splits)
  with eq fg show ?thesis by simp
qed

section \<open>SetBased\<close>

function internal_possibilities :: "nat set \<Rightarrow> nat list \<Rightarrow> int \<Rightarrow> error + nat set list" where
  "internal_possibilities prefix sub_range remaining_levels =
     (case (if remaining_levels = 1 then
              for_extend [0..<length sub_range] (\<lambda>rem.
                case del_at sub_range rem of
                  Inl e \<Rightarrow> Inl e
                | Inr list_modified \<Rightarrow> Inr [set list_modified \<union> prefix])
            else
              for_extend [0..<nat (int (length sub_range) - remaining_levels + 1)] (\<lambda>rem.
                case del_at sub_range rem of
                  Inl e \<Rightarrow> Inl e
                | Inr list_modified \<Rightarrow>
                    internal_possibilities (set (take rem list_modified))
                      (drop rem list_modified) (remaining_levels - 1)))
      of Inl e \<Rightarrow> Inl e
       | Inr sub_combinations \<Rightarrow>
           Inr (map (\<lambda>sub_combination. sub_combination \<union> prefix) sub_combinations))"
  by pat_completeness auto
termination
  by (relation "measure (\<lambda>(p, xs, r). length xs)")
     (auto simp: del_at_def split: if_splits)

declare internal_possibilities.simps [simp del]

subsection \<open>SameNumber\<close>

definition SameNumber_candidates :: "iteration \<Rightarrow> Hand \<Rightarrow> (string \<times> int) list" where
  "SameNumber_candidates it hand =
     map (\<lambda>n. (''any'', n))
       (numbers_order it (map number (filter (\<lambda>card. number card \<noteq> - 1) (cards hand))))"

definition SameNumber_matches :: "Hand \<Rightarrow> int \<Rightarrow> nat list" where
  "SameNumber_matches hand n =
     map fst (filter (\<lambda>(i, card). number card = n \<or> number card = - 1)
                (enumerate 0 (cards hand)))"

definition SameNumber_find_matches ::
  "int \<Rightarrow> Hand \<Rightarrow> string \<Rightarrow> int \<Rightarrow> error + nat set list" where
  "SameNumber_find_matches k hand c n =
     (let matches = SameNumber_matches hand n in
      if int (length matches) < k then Inr []
      else if int (length matches) = k then Inr [set matches]
      else internal_possibilities {} matches (int (length matches) - k))"

definition SameNumber_possibilities ::
  "iteration \<Rightarrow> int \<Rightarrow> Hand \<Rightarrow> error + nat set list" where
  "SameNumber_possibilities it k hand =
     for_extend (SameNumber_candidates it hand)
       (\<lambda>candidate. SameNumber_find_matches k hand (fst candidate) (snd candidate))"

subsection \<open>SameColour\<close>

definition SameColour_candidates :: "iteration \<Rightarrow> Hand \<Rightarrow> (string \<times> int) list" where
  "SameColour_candidates it hand =
     map (\<lambda>c. (c, - 1))
       (colours_order it
          (map colour (filter (\<lambda>card. \<not> str_in ''black'' (colour card)) (cards hand))))"

definition SameColour_matches :: "Hand \<Rightarrow> string \<Rightarrow> nat list" where
  "SameColour_matches hand c =
     map fst (filter (\<lambda>(i, card). colour card = c \<or> number card = - 1)
                (enumerate 0 (cards hand)))"

definition SameColour_find_matches ::
  "int \<Rightarrow> Hand \<Rightarrow> string \<Rightarrow> int \<Rightarrow> error + nat set list" where
  "SameColour_find_matches k hand c n =
     (let matches = SameColour_matches hand c in
      if int (length matches) < k then Inr []
      else if int (length matches) = k then Inr [set matches]
      else internal_possibilities {} matches (int (length matches) - k))"

definition SameColour_possibilities ::
  "iteration \<Rightarrow> int \<Rightarrow> Hand \<Rightarrow> error + nat set list" where
  "SameColour_possibilities it k hand =
     for_extend (SameColour_candidates it hand)
       (\<lambda>candidate. SameColour_find_matches k hand (fst candidate) (snd candidate))"

section \<open>ListBased\<close>

text \<open>
  \<^verbatim>\<open>get_combinations([])\<close> calls itself on \<^verbatim>\<open>[][1:] = []\<close> without end; Python
  stops it with a RecursionError.
\<close>

fun get_combinations :: "iteration \<Rightarrow> nat set list \<Rightarrow> error + nat set list" where
  "get_combinations it [] = Inl RecursionError"
| "get_combinations it [s] = Inr (map (\<lambda>pos. {pos}) (slot_order it s))"
| "get_combinations it (s # rest) =
     (case get_combinations it rest of
        Inl e \<Rightarrow> Inl e
      | Inr sub_combinations \<Rightarrow>
          Inr (concat (map (\<lambda>position.
                 map (\<lambda>sub_combination. sub_combination \<union> {position}) sub_combinations)
               (slot_order it s))))"

definition get_possibilities ::
  "iteration \<Rightarrow> int \<Rightarrow> nat set list \<Rightarrow> error + nat set list" where
  "get_possibilities it k full_list =
     for_extend [0..<nat (int (length full_list) - k + 1)]
       (\<lambda>i. get_combinations it (py_slice full_list (int i) (k + int i)))"

text \<open>
  The inner \<^verbatim>\<open>while not streak_broken\<close> loop. It returns the value of
  \<^verbatim>\<open>current_number\<close> after the loop and the streak. The slot appended in the
  iteration that sees \<^verbatim>\<open>current_number = n\<close> is the slot of the number \<open>n\<close>.
\<close>

function streak_loop ::
  "(nat \<times> Card) list \<Rightarrow> int \<Rightarrow> (nat \<times> Card) list \<Rightarrow> nat set list \<Rightarrow> int \<times> nat set list" where
  "streak_loop candidates current_number available_jokers streak =
     (let number_cards = filter (\<lambda>card. number (snd card) = current_number) candidates in
      if length number_cards = 0 \<and> length available_jokers > 0 then
        streak_loop candidates (current_number + 1) (butlast available_jokers)
          (streak @ [{fst (last available_jokers)}])
      else if length number_cards > 0 then
        streak_loop candidates (current_number + 1) available_jokers
          (streak @ [set (map fst number_cards)])
      else (current_number + 1, streak))"
  by pat_completeness auto

lemma filter_ge_shrinks:
  "filter (\<lambda>card. number (snd card) = n) cs \<noteq> [] \<Longrightarrow>
   length (filter (\<lambda>card. n + 1 \<le> number (snd card)) cs)
     < length (filter (\<lambda>card. n \<le> number (snd card)) cs)"
proof (induction cs)
  case Nil
  then show ?case by simp
next
  case (Cons c cs)
  have le: "length (filter (\<lambda>card. n + 1 \<le> number (snd card)) cs)
              \<le> length (filter (\<lambda>card. n \<le> number (snd card)) cs)"
    by (induction cs) auto
  show ?case
  proof (cases "number (snd c) = n")
    case True
    then show ?thesis using le by simp
  next
    case False
    then have "filter (\<lambda>card. number (snd card) = n) cs \<noteq> []"
      using Cons.prems by simp
    from Cons.IH [OF this] show ?thesis by auto
  qed
qed

lemma filter_ge_mono:
  "length (filter (\<lambda>card. n + 1 \<le> number (snd card)) cs)
     \<le> length (filter (\<lambda>card. (n::int) \<le> number (snd card)) cs)"
  by (induction cs) auto

termination streak_loop
proof (relation "measure (\<lambda>(cs, n, js, st).
         length js + length (filter (\<lambda>card. n \<le> number (snd card)) cs))", goal_cases)
  case 1
  then show ?case by simp
next
  case (2 cs n js st nc)
  then show ?case
    using filter_ge_mono [of n cs] by (cases js rule: rev_cases) auto
next
  case (3 cs n js st nc)
  then have "filter (\<lambda>card. number (snd card) = n) cs \<noteq> []" by auto
  from filter_ge_shrinks [OF this] show ?case by simp
qed

declare streak_loop.simps [simp del]

lemma streak_loop_advances:
  "current_number < fst (streak_loop candidates current_number available_jokers streak)"
proof (induction candidates current_number available_jokers streak rule: streak_loop.induct)
  case (1 cs n js st)
  show ?case
    using 1 by (subst streak_loop.simps) (auto simp: Let_def)
qed

text \<open>The outer \<^verbatim>\<open>while current_number <= 12\<close> loop of \<^verbatim>\<open>ListBased.possibilities\<close>.\<close>

function ListBased_loop ::
  "iteration \<Rightarrow> int \<Rightarrow> (nat \<times> Card) list \<Rightarrow> int \<Rightarrow> nat set list
     \<Rightarrow> error + nat set list" where
  "ListBased_loop it k candidates current_number possibilities =
     (if current_number \<le> 12 then
        (let available_jokers = filter (\<lambda>card. number (snd card) = - 1) candidates;
             r = streak_loop candidates current_number available_jokers []
         in case get_possibilities it k (snd r) of
              Inl e \<Rightarrow> Inl e
            | Inr ps \<Rightarrow> ListBased_loop it k candidates (fst r) (possibilities @ ps))
      else Inr possibilities)"
  by pat_completeness auto
termination
proof (relation "measure (\<lambda>(it, k, cs, n, ps). nat (13 - n))", goal_cases)
  case 1
  then show ?case by simp
next
  case (2 it k cs n ps js r qs)
  then show ?case
    using streak_loop_advances [of n cs js "[]"] by simp
qed

declare ListBased_loop.simps [simp del]

definition AnyList_candidates :: "Hand \<Rightarrow> (nat \<times> Card) list" where
  "AnyList_candidates hand = sort_key (\<lambda>card. number (snd card)) (enumerate 0 (cards hand))"

definition AnyList_possibilities :: "iteration \<Rightarrow> int \<Rightarrow> Hand \<Rightarrow> error + nat set list" where
  "AnyList_possibilities it k hand = ListBased_loop it k (AnyList_candidates hand) 1 []"

subsection \<open>SameColourList\<close>

text \<open>
  \<^verbatim>\<open>all_same_colour(hand, positions)\<close>. The set \<^verbatim>\<open>positions\<close> is given by the list
  \<open>ps\<close> of its elements in the order in which it is iterated. \<^verbatim>\<open>hand.cards[pos]\<close>
  raises IndexError for a position outside the hand; the \<^verbatim>\<open>filter\<close> that computes
  \<^verbatim>\<open>targets\<close> reads every position, so one such position makes the call raise.
\<close>

definition all_same_colour :: "Hand \<Rightarrow> nat list \<Rightarrow> error + bool" where
  "all_same_colour hand ps =
     (if \<exists>pos \<in> set ps. \<not> pos < length (cards hand) then Inl IndexError
      else
        (let targets = filter (\<lambda>pos. number (cards hand ! pos) \<noteq> - 1) ps in
         if length targets = 0 then Inr True
         else
           (let target = cards hand ! (targets ! 0) in
            Inr (list_all (\<lambda>pos. str_in (colour target) (colour (cards hand ! pos))) ps))))"

fun filter_err :: "('a \<Rightarrow> error + bool) \<Rightarrow> 'a list \<Rightarrow> error + 'a list" where
  "filter_err p [] = Inr []"
| "filter_err p (x # xs) =
     (case p x of
        Inl e \<Rightarrow> Inl e
      | Inr b \<Rightarrow> (case filter_err p xs of
                   Inl e \<Rightarrow> Inl e
                 | Inr ys \<Rightarrow> Inr (if b then x # ys else ys)))"

definition SameColourList_possibilities ::
  "iteration \<Rightarrow> int \<Rightarrow> Hand \<Rightarrow> error + nat set list" where
  "SameColourList_possibilities it k hand =
     (case AnyList_possibilities it k hand of
        Inl e \<Rightarrow> Inl e
      | Inr all_list_possibilities \<Rightarrow>
          (case filter_err
                  (\<lambda>(i, possibilities). all_same_colour hand (result_order it k i possibilities))
                  (enumerate 0 all_list_possibilities) of
             Inl e \<Rightarrow> Inl e
           | Inr kept \<Rightarrow> Inr (map snd kept)))"

section \<open>GroupCondition and the shared base\<close>

text \<open>One pass of the loop body for \<open>i > 0\<close>: the disjoint unions of the accumulated
  sets with the sets of the next sub-condition.\<close>

definition disjoint_unions :: "nat set list \<Rightarrow> nat set list \<Rightarrow> nat set list" where
  "disjoint_unions remaining_possibilities b_poss_s =
     concat (map (\<lambda>a_poss.
        map (\<lambda>b_poss. a_poss \<union> b_poss)
          (filter (\<lambda>b_poss. a_poss \<inter> b_poss = {}) b_poss_s))
      remaining_possibilities)"

fun group_fold :: "nat set list list \<Rightarrow> nat set list" where
  "group_fold [] = []"
| "group_fold (p # ps) = foldl disjoint_unions p ps"

text \<open>The list comprehension \<^verbatim>\<open>[f(c) for c in cs]\<close> with a body that may raise.\<close>

fun sequence_err :: "(error + 'a) list \<Rightarrow> error + 'a list" where
  "sequence_err [] = Inr []"
| "sequence_err (r # rs) =
     (case r of
        Inl e \<Rightarrow> Inl e
      | Inr x \<Rightarrow> (case sequence_err rs of Inl e \<Rightarrow> Inl e | Inr xs \<Rightarrow> Inr (x # xs)))"

fun possibilities :: "iteration \<Rightarrow> Condition \<Rightarrow> Hand \<Rightarrow> error + nat set list" where
  "possibilities it (SameNumber k) hand = SameNumber_possibilities it k hand"
| "possibilities it (SameColour k) hand = SameColour_possibilities it k hand"
| "possibilities it (AnyList k) hand = AnyList_possibilities it k hand"
| "possibilities it (SameColourList k) hand = SameColourList_possibilities it k hand"
| "possibilities it (GroupCondition cs) hand =
     (case sequence_err (map (\<lambda>c. possibilities it c hand) cs) of
        Inl e \<Rightarrow> Inl e
      | Inr sub_possibilities \<Rightarrow> Inr (group_fold sub_possibilities))"

definition hand_passed :: "iteration \<Rightarrow> Condition \<Rightarrow> Hand \<Rightarrow> error + bool" where
  "hand_passed it c hand =
     (case possibilities it c hand of
        Inl e \<Rightarrow> Inl e
      | Inr ps \<Rightarrow> Inr (if length ps > 0 then True else False))"

section \<open>The test hand of sim.py\<close>

definition test_cards :: "Card list" where
  "test_cards =
     [Card_init ''blue'' 1, Card_init ''blue'' 2, Card_init ''blue'' 3,
      Card_init ''red'' 4, Card_init ''red'' 5, Card_init ''red'' 6, Card_init ''red'' 6,
      Card_init ''red'' (- 1), Card_init ''red'' (- 1), Card_init ''red'' (- 1)]"

definition test_hand :: Hand where
  "test_hand = \<lparr>cards = test_cards\<rparr>"

section \<open>Auxiliary functions of the proofs\<close>

text \<open>
  \<open>removals r xs\<close> lists the sets left after removing \<open>r\<close> elements of \<open>xs\<close>, in the
  order in which \<open>internal_possibilities\<close> produces them (lemma
  \<open>internal_possibilities_removals\<close>).
\<close>

fun removals :: "nat \<Rightarrow> nat list \<Rightarrow> nat set list" where
  "removals 0 xs = [set xs]"
| "removals (Suc r) [] = []"
| "removals (Suc r) (x # xs) = removals r xs @ map (insert x) (removals (Suc r) xs)"

text \<open>Position sets that pairwise share no position.\<close>

fun disjoint_list :: "nat set list \<Rightarrow> bool" where
  "disjoint_list [] = True"
| "disjoint_list (s # ss) = ((\<forall>t \<in> set ss. s \<inter> t = {}) \<and> disjoint_list ss)"

text \<open>
  The invariant of the inner loop of \<^verbatim>\<open>ListBased.possibilities\<close>: every position of a slot
  built so far belongs to a card with a number below \<open>n\<close> and is not among the jokers
  still available.
\<close>

definition slot_ok :: "(nat \<times> Card) list \<Rightarrow> int \<Rightarrow> (nat \<times> Card) list \<Rightarrow> nat set \<Rightarrow> bool" where
  "slot_ok cs n js s =
     (finite s \<and> (\<forall>p \<in> s. p \<in> fst ` set cs \<and> p \<notin> fst ` set js \<and>
                      (\<forall>c \<in> set cs. fst c = p \<longrightarrow> number (snd c) < n)))"

definition streak_inv ::
  "(nat \<times> Card) list \<Rightarrow> int \<Rightarrow> (nat \<times> Card) list \<Rightarrow> nat set list \<Rightarrow> bool" where
  "streak_inv cs n js st =
     (distinct (map fst cs) \<and> set js \<subseteq> set cs \<and> distinct (map fst js) \<and>
      (\<forall>c \<in> set js. number (snd c) = - 1) \<and> 0 \<le> n \<and>
      disjoint_list st \<and> (\<forall>s \<in> set st. slot_ok cs n js s))"

text \<open>
  Conditions built with required numbers in 1..10, and the Set and Run conditions
  among them.
\<close>

fun well_formed :: "Condition \<Rightarrow> bool" where
  "well_formed (SameNumber k) = (1 \<le> k \<and> k \<le> 10)"
| "well_formed (SameColour k) = (1 \<le> k \<and> k \<le> 10)"
| "well_formed (AnyList k) = (1 \<le> k \<and> k \<le> 10)"
| "well_formed (SameColourList k) = (1 \<le> k \<and> k \<le> 10)"
| "well_formed (GroupCondition cs) = (\<forall>c \<in> set cs. well_formed c)"

fun leaf :: "Condition \<Rightarrow> bool" where
  "leaf (GroupCondition cs) = False"
| "leaf c = True"

text \<open>One position set of every sub-condition, pairwise disjoint.\<close>

definition chosen :: "nat set list \<Rightarrow> nat set list list \<Rightarrow> bool" where
  "chosen parts Ls = (list_all2 (\<lambda>L P. P \<in> set L) Ls parts \<and> disjoint_list parts)"

text \<open>
  A hand whose cards 11 and 12 follow a streak that broke at 10, with one joker: the
  numbers are 11, 12, joker, 2, 4, 6, 8, 2, 4, 6.
\<close>

definition gap_hand :: Hand where
  "gap_hand = \<lparr>cards =
     [Card_init ''green'' 11, Card_init ''green'' 12,
      \<lparr>colour = ''black'', number = - 1, type = ''joker''\<rparr>,
      Card_init ''red'' 2, Card_init ''red'' 4, Card_init ''red'' 6, Card_init ''red'' 8,
      Card_init ''blue'' 2, Card_init ''blue'' 4, Card_init ''blue'' 6]\<rparr>"

text \<open>Two results that raise the same error or return lists of the same sets.\<close>

fun same_sets :: "error + nat set list \<Rightarrow> error + nat set list \<Rightarrow> bool" where
  "same_sets (Inl e) (Inl e') = (e = e')"
| "same_sets (Inr ps) (Inr qs) = (set ps = set qs)"
| "same_sets r r' = False"

section \<open>Set conditions enumerate the subsets of the matches\<close>

lemma for_extend_Inr:
  "(\<And>i. i \<in> set js \<Longrightarrow> f i = Inr (g i)) \<Longrightarrow> for_extend js f = Inr (concat (map g js))"
  by (induction js) auto

lemma removals_short: "length xs < r \<Longrightarrow> removals r xs = []"
  by (induction r xs rule: removals.induct) auto

lemma upt_shift: "[0..<Suc n] = 0 # map Suc [0..<n]"
  by (simp add: upt_conv_Cons map_Suc_upt del: upt_Suc)

lemma removals_one:
  "map (\<lambda>i. set (take i xs @ drop (Suc i) xs)) [0..<length xs] = removals (Suc 0) xs"
proof (induction xs)
  case Nil
  then show ?case by simp
next
  case (Cons x xs)
  have "map (\<lambda>i. set (take i (x # xs) @ drop (Suc i) (x # xs))) [0..<length (x # xs)]
        = set xs # map (\<lambda>i. insert x (set (take i xs @ drop (Suc i) xs))) [0..<length xs]"
    by (simp add: upt_shift comp_def del: upt_Suc)
  also have "map (\<lambda>i. insert x (set (take i xs @ drop (Suc i) xs))) [0..<length xs]
        = map (insert x) (map (\<lambda>i. set (take i xs @ drop (Suc i) xs)) [0..<length xs])"
    by (simp add: comp_def)
  also have "\<dots> = map (insert x) (removals (Suc 0) xs)"
    by (simp only: Cons.IH)
  finally show ?case by simp
qed

lemma removals_step:
  "concat (map (\<lambda>i. map (\<lambda>S. S \<union> set (take i xs)) (removals (Suc r) (drop (Suc i) xs)))
      [0..<length xs - Suc r]) = removals (Suc (Suc r)) xs"
proof (induction xs)
  case Nil
  then show ?case by simp
next
  case (Cons x xs)
  show ?case
  proof (cases "length xs \<le> r")
    case True
    then have "removals (Suc r) xs = []" "removals (Suc (Suc r)) xs = []"
      by (simp_all add: removals_short)
    with True show ?thesis by simp
  next
    case False
    then obtain m where m: "length xs - r = Suc m" and m': "m = length xs - Suc r"
      by (cases "length xs - r") auto
    have rng: "[0..<length (x # xs) - Suc r] = 0 # map Suc [0..<m]"
      using m by (simp add: upt_shift del: upt_Suc)
    have "concat (map (\<lambda>i. map (\<lambda>S. S \<union> set (take i (x # xs)))
              (removals (Suc r) (drop (Suc i) (x # xs)))) [0..<length (x # xs) - Suc r])
        = removals (Suc r) xs @
          concat (map (\<lambda>i. map (\<lambda>S. insert x (S \<union> set (take i xs)))
              (removals (Suc r) (drop (Suc i) xs))) [0..<m])"
      unfolding rng by (simp add: comp_def)
    also have "concat (map (\<lambda>i. map (\<lambda>S. insert x (S \<union> set (take i xs)))
              (removals (Suc r) (drop (Suc i) xs))) [0..<m])
        = map (insert x) (concat (map (\<lambda>i. map (\<lambda>S. S \<union> set (take i xs))
              (removals (Suc r) (drop (Suc i) xs))) [0..<m]))"
      by (simp add: map_concat comp_def)
    also have "\<dots> = map (insert x) (removals (Suc (Suc r)) xs)"
      unfolding m' by (simp only: Cons.IH)
    finally show ?thesis by simp
  qed
qed

lemma internal_possibilities_removals:
  "internal_possibilities p xs (int (Suc r)) = Inr (map (\<lambda>S. S \<union> p) (removals (Suc r) xs))"
proof (induction r arbitrary: p xs)
  case 0
  have "for_extend [0..<length xs] (\<lambda>rem. case del_at xs rem of Inl e \<Rightarrow> Inl e
            | Inr list_modified \<Rightarrow> Inr [set list_modified \<union> p])
        = Inr (concat (map (\<lambda>i. [set (take i xs @ drop (Suc i) xs) \<union> p]) [0..<length xs]))"
    by (rule for_extend_Inr) (simp add: del_at_def)
  also have "concat (map (\<lambda>i. [set (take i xs @ drop (Suc i) xs) \<union> p]) [0..<length xs])
        = map (\<lambda>S. S \<union> p) (map (\<lambda>i. set (take i xs @ drop (Suc i) xs)) [0..<length xs])"
    by (induction "[0..<length xs]") (simp_all add: comp_def concat_map_singleton)
  finally show ?case
    by (subst internal_possibilities.simps) (simp add: removals_one [symmetric] comp_def)
next
  case (Suc r)
  have rng: "nat (int (length xs) - int (Suc (Suc r)) + 1) = length xs - Suc r"
    by simp
  have "for_extend [0..<length xs - Suc r] (\<lambda>rem. case del_at xs rem of Inl e \<Rightarrow> Inl e
            | Inr list_modified \<Rightarrow> internal_possibilities (set (take rem list_modified))
                 (drop rem list_modified) (int (Suc (Suc r)) - 1))
        = Inr (concat (map (\<lambda>i. map (\<lambda>S. S \<union> set (take i xs))
                 (removals (Suc r) (drop (Suc i) xs))) [0..<length xs - Suc r]))"
  proof (rule for_extend_Inr)
    fix i assume "i \<in> set [0..<length xs - Suc r]"
    then have i: "i < length xs" by simp
    then have tk: "take i (take i xs @ drop (Suc i) xs) = take i xs"
      and dr: "drop i (take i xs @ drop (Suc i) xs) = drop (Suc i) xs"
      by simp_all
    have lv: "int (Suc (Suc r)) - 1 = int (Suc r)" by simp
    show "(case del_at xs i of Inl e \<Rightarrow> Inl e
            | Inr list_modified \<Rightarrow> internal_possibilities (set (take i list_modified))
                 (drop i list_modified) (int (Suc (Suc r)) - 1))
          = Inr (map (\<lambda>S. S \<union> set (take i xs)) (removals (Suc r) (drop (Suc i) xs)))"
      using i by (simp only: del_at_def if_True sum.case tk dr lv Suc.IH)
  qed
  then show ?case
    by (subst internal_possibilities.simps) (simp only: rng removals_step, simp)
qed

lemma length_removals: "length (removals r xs) = length xs choose r"
  by (induction r xs rule: removals.induct) simp_all

lemma removals_subset: "S \<in> set (removals r xs) \<Longrightarrow> S \<subseteq> set xs"
  by (induction r xs arbitrary: S rule: removals.induct) auto

lemma removals_card:
  "distinct xs \<Longrightarrow> S \<in> set (removals r xs) \<Longrightarrow> card S = length xs - r"
proof (induction r xs arbitrary: S rule: removals.induct)
  case (1 xs)
  then show ?case by (simp add: distinct_card)
next
  case (2 r)
  then show ?case by simp
next
  case (3 r x xs)
  from "3.prems" have d: "distinct xs" and x: "x \<notin> set xs" by simp_all
  from "3.prems" consider "S \<in> set (removals r xs)"
    | T where "T \<in> set (removals (Suc r) xs)" "S = insert x T" by auto
  then show ?case
  proof cases
    case 1
    with "3.IH"(1) d show ?thesis by simp
  next
    case 2
    then have "T \<subseteq> set xs" by (auto dest: removals_subset)
    then have "x \<notin> T" "finite T" using x by (auto intro: finite_subset)
    moreover have "card T = length xs - Suc r" using "3.IH"(2) d 2 by simp
    moreover have "Suc r \<le> length xs"
      using 2(1) removals_short [of xs "Suc r"] by (cases "length xs < Suc r") auto
    ultimately show ?thesis using 2 by simp
  qed
qed

lemma distinct_removals: "distinct xs \<Longrightarrow> distinct (removals r xs)"
proof (induction r xs rule: removals.induct)
  case (3 r x xs)
  then have d: "distinct xs" and x: "x \<notin> set xs" by simp_all
  have notin: "\<And>T. T \<in> set (removals r xs) \<or> T \<in> set (removals (Suc r) xs) \<Longrightarrow> x \<notin> T"
    using x by (auto dest: removals_subset)
  have "inj_on (insert x) (set (removals (Suc r) xs))"
    by (rule inj_onI) (metis notin insert_ident)
  then have "distinct (map (insert x) (removals (Suc r) xs))"
    using 3 d by (simp add: distinct_map)
  moreover have "set (removals r xs) \<inter> set (map (insert x) (removals (Suc r) xs)) = {}"
    using notin by auto
  ultimately show ?case using 3 d by simp
qed simp_all

lemma set_removals:
  assumes "distinct xs" "r \<le> length xs"
  shows "set (removals r xs) = {S. S \<subseteq> set xs \<and> card S = length xs - r}"
proof (rule card_subset_eq)
  show "finite {S. S \<subseteq> set xs \<and> card S = length xs - r}" by simp
  show "set (removals r xs) \<subseteq> {S. S \<subseteq> set xs \<and> card S = length xs - r}"
    using assms by (auto dest: removals_subset removals_card)
  have "card (set (removals r xs)) = length xs choose r"
    using assms by (simp add: distinct_card distinct_removals length_removals)
  also have "\<dots> = length xs choose (length xs - r)"
    using assms(2) by (rule binomial_symmetric)
  also have "\<dots> = card {S. S \<subseteq> set xs \<and> card S = length xs - r}"
    using assms n_subsets [of "set xs" "length xs - r"] by (simp add: distinct_card)
  finally show "card (set (removals r xs)) = card {S. S \<subseteq> set xs \<and> card S = length xs - r}" .
qed

lemma SameNumber_matches_positions:
  "distinct (SameNumber_matches hand n) \<and>
   set (SameNumber_matches hand n) =
     {i. i < length (cards hand) \<and> (number (cards hand ! i) = n \<or> number (cards hand ! i) = - 1)}"
proof -
  have d: "distinct (map fst (enumerate 0 (cards hand)))" by simp
  have "distinct (map fst (filter (\<lambda>(i, card). number card = n \<or> number card = - 1)
                (enumerate 0 (cards hand))))"
    using d by (rule distinct_map_filter)
  moreover have "set (SameNumber_matches hand n) =
     {i. i < length (cards hand) \<and> (number (cards hand ! i) = n \<or> number (cards hand ! i) = - 1)}"
    by (auto simp: SameNumber_matches_def in_set_enumerate_eq image_iff)
  ultimately show ?thesis by (simp add: SameNumber_matches_def)
qed

lemma choose_subsets_nat:
  assumes "distinct xs"
  shows "\<exists>ps. (if length xs < j then Inr []
               else if length xs = j then Inr [set xs]
               else internal_possibilities {} xs (int (length xs) - int j)) = Inr ps
            \<and> length ps = length xs choose j \<and> distinct ps
            \<and> set ps = {S. S \<subseteq> set xs \<and> card S = j}"
proof -
  have card_le: "\<And>S. S \<subseteq> set xs \<Longrightarrow> card S \<le> length xs"
  proof -
    fix S assume "S \<subseteq> set xs"
    then have "card S \<le> card (set xs)" by (simp add: card_mono)
    also have "\<dots> \<le> length xs" by (rule card_length)
    finally show "card S \<le> length xs" .
  qed
  consider "length xs < j" | "length xs = j" | "j < length xs" by linarith
  then show ?thesis
  proof cases
    case 1
    have e: "{S. S \<subseteq> set xs \<and> card S = j} = {}"
    proof (rule equals0I)
      fix S assume "S \<in> {S. S \<subseteq> set xs \<and> card S = j}"
      then have "S \<subseteq> set xs" "card S = j" by simp_all
      with card_le [of S] 1 show False by simp
    qed
    have b: "length xs choose j = 0" using 1 by (rule binomial_eq_0)
    have i: "(if length xs < j then Inr []
               else if length xs = j then Inr [set xs]
               else internal_possibilities {} xs (int (length xs) - int j)) = Inr []"
      using 1 by simp
    show ?thesis unfolding e b i by (rule exI [of _ "[]"]) simp
  next
    case 2
    have e: "{S. S \<subseteq> set xs \<and> card S = j} = {set xs}"
    proof
      show "{S. S \<subseteq> set xs \<and> card S = j} \<subseteq> {set xs}"
      proof
        fix S assume "S \<in> {S. S \<subseteq> set xs \<and> card S = j}"
        then have s: "S \<subseteq> set xs" and c: "card S = j" by simp_all
        have "card S = card (set xs)"
          using c 2 distinct_card [OF assms(1)] by simp
        with s have "S = set xs" by (rule card_subset_eq [OF finite_set])
        then show "S \<in> {set xs}" by simp
      qed
      show "{set xs} \<subseteq> {S. S \<subseteq> set xs \<and> card S = j}"
        using distinct_card [OF assms(1)] 2 by simp
    qed
    have b: "length xs choose j = 1" using 2 by simp
    have i: "(if length xs < j then Inr []
               else if length xs = j then Inr [set xs]
               else internal_possibilities {} xs (int (length xs) - int j)) = Inr [set xs]"
      using 2 by simp
    show ?thesis unfolding e b i by (rule exI [of _ "[set xs]"]) simp
  next
    case 3
    define r where "r = length xs - j - 1"
    have rl: "Suc r \<le> length xs" and kk: "length xs - Suc r = j"
      using 3 by (simp_all add: r_def)
    have lv: "int (length xs) - int j = int (Suc r)"
      using 3 by (simp add: r_def)
    have ip: "internal_possibilities {} xs (int (length xs) - int j) = Inr (removals (Suc r) xs)"
      unfolding lv by (simp add: internal_possibilities_removals del: of_nat_Suc)
    have i: "(if length xs < j then Inr []
               else if length xs = j then Inr [set xs]
               else internal_possibilities {} xs (int (length xs) - int j))
             = Inr (removals (Suc r) xs)"
      using 3 ip by simp
    have l: "length (removals (Suc r) xs) = length xs choose j"
      using binomial_symmetric [OF rl] by (simp only: length_removals kk)
    have s: "set (removals (Suc r) xs) = {S. S \<subseteq> set xs \<and> card S = j}"
      using set_removals [OF assms(1) rl] by (simp only: kk)
    have d: "distinct (removals (Suc r) xs)"
      using assms(1) by (rule distinct_removals)
    show ?thesis unfolding i
      by (rule exI [of _ "removals (Suc r) xs"]) (simp only: l s d simp_thms)
  qed
qed

lemma choose_subsets:
  assumes "distinct xs" "0 \<le> k"
  shows "\<exists>ps. (if int (length xs) < k then Inr []
               else if int (length xs) = k then Inr [set xs]
               else internal_possibilities {} xs (int (length xs) - k)) = Inr ps
            \<and> length ps = length xs choose nat k \<and> distinct ps
            \<and> set ps = {S. S \<subseteq> set xs \<and> card S = nat k}"
proof -
  obtain j where k: "k = int j" using assms(2) by (metis nat_0_le)
  have c: "(int (length xs) < int j) = (length xs < j)" "(int (length xs) = int j) = (length xs = j)"
    "nat (int j) = j"
    by simp_all
  show ?thesis unfolding k c by (rule choose_subsets_nat [OF assms(1)])
qed

section \<open>Loops that may raise\<close>

lemma for_extend_total:
  "(\<And>i. i \<in> set js \<Longrightarrow> \<exists>ys. f i = Inr ys) \<Longrightarrow> \<exists>ys. for_extend js f = Inr ys"
proof (induction js)
  case Nil
  then show ?case by simp
next
  case (Cons j js)
  obtain ys where "f j = Inr ys" using Cons.prems [of j] by auto
  moreover obtain zs where "for_extend js f = Inr zs" using Cons by fastforce
  ultimately show ?case by simp
qed

lemma for_extend_elems:
  "for_extend js f = Inr ys \<Longrightarrow> S \<in> set ys \<Longrightarrow> \<exists>j \<in> set js. \<exists>zs. f j = Inr zs \<and> S \<in> set zs"
proof (induction js arbitrary: ys)
  case Nil
  then show ?case by simp
next
  case (Cons j js)
  from Cons.prems(1) obtain zs ws where z: "f j = Inr zs" and w: "for_extend js f = Inr ws"
    and ys: "ys = zs @ ws"
    by (auto split: sum.splits)
  from Cons.prems(2) ys consider "S \<in> set zs" | "S \<in> set ws" by auto
  then show ?case
  proof cases
    case 1
    with z show ?thesis by auto
  next
    case 2
    from Cons.IH [OF w 2] show ?thesis by auto
  qed
qed

lemma for_extend_mem:
  "for_extend js f = Inr ys \<Longrightarrow> j \<in> set js \<Longrightarrow> f j = Inr zs \<Longrightarrow> S \<in> set zs \<Longrightarrow> S \<in> set ys"
proof (induction js arbitrary: ys)
  case Nil
  then show ?case by simp
next
  case (Cons i js)
  from Cons.prems(1) obtain us ws where u: "f i = Inr us" and w: "for_extend js f = Inr ws"
    and ys: "ys = us @ ws"
    by (auto split: sum.splits)
  show ?case
  proof (cases "j = i")
    case True
    with u Cons.prems(3,4) ys show ?thesis by simp
  next
    case False
    with Cons.prems(2) have "j \<in> set js" by simp
    from Cons.IH [OF w this Cons.prems(3,4)] ys show ?thesis by simp
  qed
qed

lemma subsets_total:
  "\<exists>ps. (if int (length xs) < k then Inr []
         else if int (length xs) = k then Inr [set xs]
         else internal_possibilities {} xs (int (length xs) - k)) = Inr ps"
proof -
  consider "int (length xs) < k" | "int (length xs) = k" | "k < int (length xs)" by linarith
  then show ?thesis
  proof cases
    case 3
    then obtain r where "int (length xs) - k = int (Suc r)"
      by (metis Suc_pred' diff_gt_0_iff_gt int_nat_eq less_imp_le zero_less_nat_eq zless_nat_conj)
    then show ?thesis using 3 by (simp add: internal_possibilities_removals del: of_nat_Suc)
  qed simp_all
qed

lemma SameNumber_possibilities_total: "\<exists>ps. SameNumber_possibilities it k hand = Inr ps"
  unfolding SameNumber_possibilities_def SameNumber_find_matches_def Let_def
  by (rule for_extend_total) (rule subsets_total)

lemma SameColour_possibilities_total: "\<exists>ps. SameColour_possibilities it k hand = Inr ps"
  unfolding SameColour_possibilities_def SameColour_find_matches_def Let_def
  by (rule for_extend_total) (rule subsets_total)

section \<open>Run conditions: one position per slot of a window\<close>

lemma slot_order_set: "iteration_ok it \<Longrightarrow> finite s \<Longrightarrow> set (slot_order it s) = s"
  by (simp add: iteration_ok_def)

lemma result_order_set: "iteration_ok it \<Longrightarrow> finite S \<Longrightarrow> set (result_order it k i S) = S"
  by (simp add: iteration_ok_def)

lemma get_combinations_total: "xs \<noteq> [] \<Longrightarrow> \<exists>ys. get_combinations it xs = Inr ys"
proof (induction it xs rule: get_combinations.induct)
  case (1 it)
  then show ?case by simp
next
  case (2 it s)
  then show ?case by simp
next
  case (3 it s t rest)
  then obtain ys where "get_combinations it (t # rest) = Inr ys" by auto
  then show ?case by simp
qed

lemma disjoint_list_append:
  "disjoint_list (xs @ [s]) = (disjoint_list xs \<and> (\<forall>t \<in> set xs. t \<inter> s = {}))"
  by (induction xs) auto

lemma disjoint_list_drop: "disjoint_list xs \<Longrightarrow> disjoint_list (drop n xs)"
proof (induction xs arbitrary: n)
  case Nil
  then show ?case by simp
next
  case (Cons x xs)
  then show ?case by (cases n) simp_all
qed

lemma disjoint_list_take: "disjoint_list xs \<Longrightarrow> disjoint_list (take n xs)"
proof (induction xs arbitrary: n)
  case Nil
  then show ?case by simp
next
  case (Cons x xs)
  show ?case
  proof (cases n)
    case 0
    then show ?thesis by simp
  next
    case (Suc m)
    have "set (take m xs) \<subseteq> set xs" by (rule set_take_subset)
    with Cons Suc show ?thesis by auto
  qed
qed

text \<open>One position of every slot: sets of as many positions as there are slots.\<close>

lemma get_combinations_card:
  "get_combinations it xs = Inr ys \<Longrightarrow> iteration_ok it \<Longrightarrow> finite A \<Longrightarrow> disjoint_list xs \<Longrightarrow>
   \<forall>s \<in> set xs. s \<subseteq> A \<Longrightarrow> S \<in> set ys \<Longrightarrow>
   finite S \<and> card S = length xs \<and> S \<subseteq> \<Union> (set xs)"
proof (induction it xs arbitrary: ys S rule: get_combinations.induct)
  case (1 it)
  then show ?case by simp
next
  case (2 it s)
  from "2.prems"(3,5) have "finite s" by (auto intro: finite_subset)
  with "2.prems"(2) have o: "set (slot_order it s) = s" by (rule slot_order_set)
  from "2.prems"(1,6) obtain pos where "pos \<in> set (slot_order it s)" "S = {pos}" by auto
  with o show ?case by auto
next
  case (3 it s t rest)
  from "3.prems"(3,5) have "finite s" by (auto intro: finite_subset)
  with "3.prems"(2) have o: "set (slot_order it s) = s" by (rule slot_order_set)
  from "3.prems"(1) obtain subs where subs: "get_combinations it (t # rest) = Inr subs"
    and ys: "ys = concat (map (\<lambda>position. map (\<lambda>sub. sub \<union> {position}) subs) (slot_order it s))"
    by (auto split: sum.splits)
  from "3.prems"(6) ys obtain pos sub where pos: "pos \<in> set (slot_order it s)"
    and sub: "sub \<in> set subs" and S: "S = sub \<union> {pos}"
    by auto
  have d: "disjoint_list (t # rest)" and A: "\<forall>s \<in> set (t # rest). s \<subseteq> A"
    using "3.prems"(4,5) by simp_all
  from "3.IH" [OF subs "3.prems"(2,3) d A sub]
  have fin: "finite sub" and c: "card sub = length (t # rest)" and u: "sub \<subseteq> \<Union> (set (t # rest))"
    by simp_all
  have ps: "pos \<in> s" using pos o by simp
  have "pos \<notin> \<Union> (set (t # rest))"
  proof
    assume "pos \<in> \<Union> (set (t # rest))"
    then obtain w where w: "w \<in> set (t # rest)" "pos \<in> w" by blast
    from "3.prems"(4) w(1) have "s \<inter> w = {}" by auto
    with ps w(2) show False by blast
  qed
  with u have "pos \<notin> sub" by blast
  with fin c have "finite S" "card S = length (s # t # rest)" by (simp_all add: S)
  moreover have "S \<subseteq> \<Union> (set (s # t # rest))"
    using u ps by (auto simp: S)
  ultimately show ?case by simp
qed

lemma py_slice_window:
  assumes "1 \<le> k"
  shows "py_slice xs (int i) (k + int i) = take (nat k) (drop i xs)"
proof -
  have "take (nat (min (k + int i) (int (length xs)) - min (int i) (int (length xs))))
          (drop (nat (min (int i) (int (length xs)))) xs)
        = take (nat k) (drop i xs)"
  proof (cases "i \<le> length xs")
    case True
    then have m: "min (int i) (int (length xs)) = int i" by simp
    show ?thesis
    proof (cases "k + int i \<le> int (length xs)")
      case True
      then show ?thesis using m by simp
    next
      case False
      then have "min (k + int i) (int (length xs)) = int (length xs)" by simp
      moreover have "length (drop i xs) \<le> nat k" using False by simp
      ultimately show ?thesis using m by (simp add: nat_diff_distrib')
    qed
  next
    case False
    then show ?thesis by simp
  qed
  then show ?thesis using assms by (simp add: py_slice_def Let_def)
qed

lemma get_possibilities_total:
  assumes "1 \<le> k"
  shows "\<exists>ps. get_possibilities it k st = Inr ps"
  unfolding get_possibilities_def
proof (rule for_extend_total)
  fix i assume "i \<in> set [0..<nat (int (length st) - k + 1)]"
  then have "i + nat k \<le> length st" using assms by auto
  then have "take (nat k) (drop i st) \<noteq> []" using assms by auto
  then show "\<exists>ys. get_combinations it (py_slice st (int i) (k + int i)) = Inr ys"
    unfolding py_slice_window [OF assms] by (rule get_combinations_total)
qed

lemma get_possibilities_card:
  assumes "1 \<le> k" "get_possibilities it k st = Inr ps" "disjoint_list st" "\<forall>s \<in> set st. s \<subseteq> A"
    "S \<in> set ps" "iteration_ok it" "finite A"
  shows "finite S \<and> card S = nat k \<and> S \<subseteq> A"
proof -
  from for_extend_elems [OF assms(2) [unfolded get_possibilities_def] assms(5)]
  obtain i zs where i: "i \<in> set [0..<nat (int (length st) - k + 1)]"
    and zs: "get_combinations it (py_slice st (int i) (k + int i)) = Inr zs" and S: "S \<in> set zs"
    by blast
  let ?w = "take (nat k) (drop i st)"
  have w: "get_combinations it ?w = Inr zs" using zs unfolding py_slice_window [OF assms(1)] .
  have len: "length ?w = nat k" using i assms(1) by auto
  have d: "disjoint_list ?w" using assms(3) by (simp add: disjoint_list_take disjoint_list_drop)
  have sub: "set ?w \<subseteq> set st"
    using set_take_subset [of "nat k" "drop i st"] set_drop_subset [of i st] by blast
  then have A: "\<forall>s \<in> set ?w. s \<subseteq> A" using assms(4) by blast
  from get_combinations_card [OF w assms(6,7) d A S]
  have "finite S" "card S = nat k" "S \<subseteq> \<Union> (set ?w)" using len by simp_all
  moreover have "\<Union> (set ?w) \<subseteq> A" using A by blast
  ultimately show ?thesis by blast
qed

lemma fst_inj_cards:
  "distinct (map fst cs) \<Longrightarrow> c \<in> set cs \<Longrightarrow> d \<in> set cs \<Longrightarrow> fst c = fst d \<Longrightarrow> c = d"
  by (meson distinct_map inj_onD)

lemma last_not_in_butlast:
  assumes "distinct (map fst js)" "js \<noteq> []"
  shows "fst (last js) \<notin> fst ` set (butlast js)"
proof -
  have "js = butlast js @ [last js]" using assms(2) by simp
  then have "distinct (map fst (butlast js) @ [fst (last js)])"
    using assms(1) by (metis list.simps(8,9) map_append)
  then show ?thesis by simp
qed

lemma streak_inv_joker:
  assumes "streak_inv cs n js st" "js \<noteq> []"
  shows "streak_inv cs (n + 1) (butlast js) (st @ [{fst (last js)}])"
proof -
  from assms(1) have dc: "distinct (map fst cs)" and sub: "set js \<subseteq> set cs"
    and dj: "distinct (map fst js)" and jn: "\<forall>c \<in> set js. number (snd c) = - 1" and n: "0 \<le> n"
    and dl: "disjoint_list st" and ok: "\<forall>s \<in> set st. slot_ok cs n js s"
    by (simp_all add: streak_inv_def)
  let ?j = "last js"
  have j: "?j \<in> set js" using assms(2) by simp
  have bl: "set (butlast js) \<subseteq> set js" by (auto dest: in_set_butlastD)
  have 1: "set (butlast js) \<subseteq> set cs" using bl sub by blast
  have 2: "distinct (map fst (butlast js))"
    using dj by (simp add: map_butlast distinct_butlast)
  have 3: "\<forall>c \<in> set (butlast js). number (snd c) = - 1" using jn bl by blast
  have 4: "\<forall>t \<in> set st. t \<inter> {fst ?j} = {}"
  proof
    fix t assume "t \<in> set st"
    with ok have "\<forall>p \<in> t. p \<notin> fst ` set js" by (simp add: slot_ok_def)
    moreover have "fst ?j \<in> fst ` set js" using j by (rule imageI)
    ultimately show "t \<inter> {fst ?j} = {}" by auto
  qed
  have 5: "\<forall>s \<in> set st. slot_ok cs (n + 1) (butlast js) s"
  proof
    fix s assume "s \<in> set st"
    with ok have s: "slot_ok cs n js s" by simp
    show "slot_ok cs (n + 1) (butlast js) s"
      unfolding slot_ok_def
    proof (intro conjI ballI impI)
      show "finite s" using s by (simp add: slot_ok_def)
    next
      fix p assume "p \<in> s"
      then show "p \<in> fst ` set cs" using s by (simp add: slot_ok_def)
    next
      fix p assume "p \<in> s"
      then have "p \<notin> fst ` set js" using s by (simp add: slot_ok_def)
      then show "p \<notin> fst ` set (butlast js)" using bl by blast
    next
      fix p c assume "p \<in> s" "c \<in> set cs" "fst c = p"
      then have "number (snd c) < n" using s by (simp add: slot_ok_def)
      then show "number (snd c) < n + 1" by simp
    qed
  qed
  have 6: "slot_ok cs (n + 1) (butlast js) {fst ?j}"
    unfolding slot_ok_def
  proof (intro conjI ballI impI)
    show "finite {fst ?j}" by simp
  next
    fix p assume "p \<in> {fst ?j}"
    then show "p \<in> fst ` set cs" using j sub by auto
  next
    fix p assume "p \<in> {fst ?j}"
    then show "p \<notin> fst ` set (butlast js)"
      using last_not_in_butlast [OF dj assms(2)] by simp
  next
    fix p c assume p: "p \<in> {fst ?j}" and c: "c \<in> set cs" "fst c = p"
    have "?j \<in> set cs" using j sub by blast
    with c p have "c = ?j" using fst_inj_cards [OF dc] by simp
    then have "number (snd c) = - 1" using jn j by simp
    then show "number (snd c) < n + 1" using n by simp
  qed
  show ?thesis
    unfolding streak_inv_def disjoint_list_append
    using dc 1 2 3 n dl 4 5 6 by simp
qed

lemma streak_inv_cards:
  assumes "streak_inv cs n js st"
  shows "streak_inv cs (n + 1) js
           (st @ [set (map fst (filter (\<lambda>card. number (snd card) = n) cs))])"
proof -
  from assms(1) have dc: "distinct (map fst cs)" and sub: "set js \<subseteq> set cs"
    and dj: "distinct (map fst js)" and jn: "\<forall>c \<in> set js. number (snd c) = - 1" and n: "0 \<le> n"
    and dl: "disjoint_list st" and ok: "\<forall>s \<in> set st. slot_ok cs n js s"
    by (simp_all add: streak_inv_def)
  let ?nc = "filter (\<lambda>card. number (snd card) = n) cs"
  let ?s = "set (map fst ?nc)"
  have mem: "\<And>p. p \<in> ?s \<Longrightarrow> \<exists>c \<in> set cs. fst c = p \<and> number (snd c) = n"
    by auto
  have 4: "\<forall>t \<in> set st. t \<inter> ?s = {}"
  proof
    fix t assume "t \<in> set st"
    with ok have t: "\<forall>p \<in> t. \<forall>c \<in> set cs. fst c = p \<longrightarrow> number (snd c) < n"
      by (simp add: slot_ok_def)
    show "t \<inter> ?s = {}"
    proof (rule ccontr)
      assume "t \<inter> ?s \<noteq> {}"
      then obtain p where p: "p \<in> t" "p \<in> ?s" by blast
      from mem [OF p(2)] obtain c where "c \<in> set cs" "fst c = p" "number (snd c) = n" by blast
      with t p(1) show False by fastforce
    qed
  qed
  have 5: "\<forall>s \<in> set st. slot_ok cs (n + 1) js s"
  proof
    fix s assume "s \<in> set st"
    with ok have s: "slot_ok cs n js s" by simp
    show "slot_ok cs (n + 1) js s"
      unfolding slot_ok_def
    proof (intro conjI ballI impI)
      show "finite s" using s by (simp add: slot_ok_def)
    next
      fix p assume "p \<in> s"
      then show "p \<in> fst ` set cs" using s by (simp add: slot_ok_def)
    next
      fix p assume "p \<in> s"
      then show "p \<notin> fst ` set js" using s by (simp add: slot_ok_def)
    next
      fix p c assume "p \<in> s" "c \<in> set cs" "fst c = p"
      then have "number (snd c) < n" using s by (simp add: slot_ok_def)
      then show "number (snd c) < n + 1" by simp
    qed
  qed
  have 6: "slot_ok cs (n + 1) js ?s"
    unfolding slot_ok_def
  proof (intro conjI ballI impI)
    show "finite ?s" by simp
  next
    fix p assume "p \<in> ?s"
    then show "p \<in> fst ` set cs" by auto
  next
    fix p assume p: "p \<in> ?s"
    from mem [OF p] obtain c where c: "c \<in> set cs" "fst c = p" "number (snd c) = n" by blast
    show "p \<notin> fst ` set js"
    proof
      assume "p \<in> fst ` set js"
      then obtain j where j: "j \<in> set js" "fst j = p" by auto
      then have "j \<in> set cs" using sub by blast
      with c j have "c = j" using fst_inj_cards [OF dc] by simp
      then have "number (snd c) = - 1" using jn j by simp
      with c(3) n show False by simp
    qed
  next
    fix p d assume p: "p \<in> ?s" and d: "d \<in> set cs" "fst d = p"
    from mem [OF p] obtain c where c: "c \<in> set cs" "fst c = p" "number (snd c) = n" by blast
    with d have "d = c" using fst_inj_cards [OF dc] by simp
    then show "number (snd d) < n + 1" using c(3) by simp
  qed
  show ?thesis
    unfolding streak_inv_def disjoint_list_append
    using dc sub dj jn n dl 4 5 6 by simp
qed

lemma streak_loop_slots:
  "streak_inv cs n js st \<Longrightarrow>
   disjoint_list (snd (streak_loop cs n js st)) \<and>
   (\<forall>s \<in> set (snd (streak_loop cs n js st)). s \<subseteq> fst ` set cs)"
proof (induction cs n js st rule: streak_loop.induct)
  case (1 cs n js st)
  let ?nc = "filter (\<lambda>card. number (snd card) = n) cs"
  consider (joker) "?nc = []" "js \<noteq> []" | (cards) "?nc \<noteq> []" | (broken) "?nc = []" "js = []"
    by blast
  then show ?case
  proof cases
    case joker
    have inv: "streak_inv cs (n + 1) (butlast js) (st @ [{fst (last js)}])"
      using "1.prems" joker(2) by (rule streak_inv_joker)
    have eq: "streak_loop cs n js st
          = streak_loop cs (n + 1) (butlast js) (st @ [{fst (last js)}])"
      using joker by (subst streak_loop.simps) (simp add: Let_def)
    from "1.IH"(1) [OF refl _ inv] joker show ?thesis unfolding eq by simp
  next
    case cards
    have inv: "streak_inv cs (n + 1) js (st @ [set (map fst ?nc)])"
      using "1.prems" by (rule streak_inv_cards)
    have eq: "streak_loop cs n js st = streak_loop cs (n + 1) js (st @ [set (map fst ?nc)])"
      using cards by (subst streak_loop.simps) (simp add: Let_def)
    from "1.IH"(2) [OF refl _ _ inv] cards show ?thesis unfolding eq by simp
  next
    case broken
    have eq: "streak_loop cs n js st = (n + 1, st)"
      using broken by (subst streak_loop.simps) (simp add: Let_def)
    have "\<forall>s \<in> set st. s \<subseteq> fst ` set cs"
      using "1.prems" by (auto simp: streak_inv_def slot_ok_def)
    then show ?thesis using "1.prems" unfolding eq by (simp add: streak_inv_def)
  qed
qed

lemma streak_inv_start:
  assumes "distinct (map fst cs)" "0 \<le> n"
  shows "streak_inv cs n (filter (\<lambda>card. number (snd card) = - 1) cs) []"
  using assms by (simp add: streak_inv_def distinct_map_filter)

lemma ListBased_loop_total:
  "1 \<le> k \<Longrightarrow> \<exists>ps. ListBased_loop it k cs n acc = Inr ps"
proof (induction it k cs n acc rule: ListBased_loop.induct)
  case (1 it k cs n acc)
  note k = "1.prems"
  show ?case
  proof (cases "n \<le> 12")
    case True
    let ?js = "filter (\<lambda>card. number (snd card) = - 1) cs"
    let ?r = "streak_loop cs n ?js []"
    obtain qs where qs: "get_possibilities it k (snd ?r) = Inr qs"
      using get_possibilities_total [OF k] by blast
    have eq: "ListBased_loop it k cs n acc = ListBased_loop it k cs (fst ?r) (acc @ qs)"
      using True qs by (subst ListBased_loop.simps) (simp add: Let_def)
    from "1.IH" [OF True refl refl qs k] show ?thesis unfolding eq .
  next
    case False
    then show ?thesis by (subst ListBased_loop.simps) simp
  qed
qed

lemma ListBased_loop_card:
  "0 \<le> n \<Longrightarrow> ListBased_loop it k cs n acc = Inr ps \<Longrightarrow>
   \<forall>S \<in> set acc. finite S \<and> card S = nat k \<and> S \<subseteq> fst ` set cs \<Longrightarrow>
   1 \<le> k \<Longrightarrow> distinct (map fst cs) \<Longrightarrow> iteration_ok it \<Longrightarrow>
   \<forall>S \<in> set ps. finite S \<and> card S = nat k \<and> S \<subseteq> fst ` set cs"
proof (induction it k cs n acc rule: ListBased_loop.induct)
  case (1 it k cs n acc)
  note k = "1.prems"(4) and dc = "1.prems"(5) and ok = "1.prems"(6)
  show ?case
  proof (cases "n \<le> 12")
    case True
    let ?js = "filter (\<lambda>card. number (snd card) = - 1) cs"
    let ?r = "streak_loop cs n ?js []"
    obtain qs where qs: "get_possibilities it k (snd ?r) = Inr qs"
      using get_possibilities_total [OF k] by blast
    have eq: "ListBased_loop it k cs n acc = ListBased_loop it k cs (fst ?r) (acc @ qs)"
      using True qs by (subst ListBased_loop.simps) (simp add: Let_def)
    have inv: "streak_inv cs n ?js []"
      using dc "1.prems"(1) by (rule streak_inv_start)
    from streak_loop_slots [OF inv]
    have d: "disjoint_list (snd ?r)" and A: "\<forall>s \<in> set (snd ?r). s \<subseteq> fst ` set cs"
      by simp_all
    have finA: "finite (fst ` set cs)" by simp
    have new: "\<forall>S \<in> set qs. finite S \<and> card S = nat k \<and> S \<subseteq> fst ` set cs"
      using get_possibilities_card [OF k qs d A _ ok finA] by blast
    have n': "0 \<le> fst ?r"
      using streak_loop_advances [of n cs ?js "[]"] "1.prems"(1) by simp
    have acc': "\<forall>S \<in> set (acc @ qs). finite S \<and> card S = nat k \<and> S \<subseteq> fst ` set cs"
      using "1.prems"(3) new by auto
    from "1.IH" [OF True refl refl qs n' _ acc' k dc ok] "1.prems"(2) show ?thesis
      unfolding eq by simp
  next
    case False
    then have "ListBased_loop it k cs n acc = Inr acc" by (subst ListBased_loop.simps) simp
    with "1.prems" show ?thesis by simp
  qed
qed

lemma AnyList_candidates_fst:
  "distinct (map fst (AnyList_candidates hand)) \<and>
   fst ` set (AnyList_candidates hand) = {0..<length (cards hand)}"
proof -
  let ?e = "enumerate 0 (cards hand)"
  have "mset (AnyList_candidates hand) = mset ?e"
    by (simp add: AnyList_candidates_def)
  then have m: "mset (map fst (AnyList_candidates hand)) = mset (map fst ?e)"
    by (simp only: mset_map)
  have "distinct (map fst ?e)" by simp
  then have "distinct (map fst (AnyList_candidates hand))"
    using m by (metis mset_eq_imp_distinct_iff)
  moreover have "set (AnyList_candidates hand) = set ?e"
    by (simp add: AnyList_candidates_def)
  then have "fst ` set (AnyList_candidates hand) = {0..<length (cards hand)}"
    by (metis list.set_map map_fst_enumerate set_upt add_0)
  ultimately show ?thesis by simp
qed

lemma AnyList_possibilities_total:
  "1 \<le> k \<Longrightarrow> \<exists>ps. AnyList_possibilities it k hand = Inr ps"
  unfolding AnyList_possibilities_def by (rule ListBased_loop_total)

lemma AnyList_possibilities_card:
  assumes "1 \<le> k" "AnyList_possibilities it k hand = Inr ps" "S \<in> set ps" "iteration_ok it"
  shows "finite S \<and> card S = nat k \<and> S \<subseteq> {0..<length (cards hand)}"
proof -
  have d: "distinct (map fst (AnyList_candidates hand))"
    and f: "fst ` set (AnyList_candidates hand) = {0..<length (cards hand)}"
    using AnyList_candidates_fst [of hand] by simp_all
  have "\<forall>S \<in> set ps. finite S \<and> card S = nat k \<and> S \<subseteq> fst ` set (AnyList_candidates hand)"
    by (rule ListBased_loop_card
          [OF _ assms(2) [unfolded AnyList_possibilities_def] _ assms(1) d assms(4)])
       simp_all
  with assms(3) f show ?thesis by simp
qed

section \<open>Every condition returns sets of its required size\<close>

lemma all_same_colour_total:
  assumes "set ps \<subseteq> {0..<length (cards hand)}"
  shows "\<exists>b. all_same_colour hand ps = Inr b"
proof -
  have "\<forall>pos \<in> set ps. pos < length (cards hand)"
    using assms by auto
  then show ?thesis by (auto simp: all_same_colour_def Let_def)
qed

lemma filter_err_subset: "filter_err p xs = Inr ys \<Longrightarrow> set ys \<subseteq> set xs"
proof (induction xs arbitrary: ys)
  case Nil
  then show ?case by simp
next
  case (Cons x xs)
  from Cons.prems obtain b zs where "filter_err p xs = Inr zs" "ys = (if b then x # zs else zs)"
    by (auto split: sum.splits)
  with Cons.IH [of zs] show ?case by auto
qed

lemma filter_err_total:
  "(\<And>x. x \<in> set xs \<Longrightarrow> \<exists>b. p x = Inr b) \<Longrightarrow> \<exists>ys. filter_err p xs = Inr ys"
proof (induction xs)
  case Nil
  then show ?case by simp
next
  case (Cons x xs)
  obtain b where "p x = Inr b" using Cons.prems [of x] by auto
  moreover obtain ys where "filter_err p xs = Inr ys" using Cons by fastforce
  ultimately show ?case by simp
qed

lemma filter_err_mem:
  "filter_err p xs = Inr ys \<Longrightarrow> x \<in> set xs \<Longrightarrow> p x = Inr True \<Longrightarrow> x \<in> set ys"
proof (induction xs arbitrary: ys)
  case Nil
  then show ?case by simp
next
  case (Cons a xs)
  from Cons.prems(1) obtain b zs where a: "p a = Inr b" and zs: "filter_err p xs = Inr zs"
    and ys: "ys = (if b then a # zs else zs)"
    by (auto split: sum.splits)
  show ?case
  proof (cases "x = a")
    case True
    with a Cons.prems(3) ys show ?thesis by simp
  next
    case False
    with Cons.prems(2) have "x \<in> set xs" by simp
    from Cons.IH [OF zs this Cons.prems(3)] ys show ?thesis by simp
  qed
qed

lemma SameColourList_possibilities_total:
  assumes "1 \<le> k" "iteration_ok it"
  shows "\<exists>ps. SameColourList_possibilities it k hand = Inr ps"
proof -
  obtain qs where qs: "AnyList_possibilities it k hand = Inr qs"
    using AnyList_possibilities_total [OF assms(1)] by blast
  have "\<exists>ys. filter_err (\<lambda>(i, S). all_same_colour hand (result_order it k i S))
              (enumerate 0 qs) = Inr ys"
  proof (rule filter_err_total)
    fix x assume mem: "x \<in> set (enumerate 0 qs)"
    obtain i S where x: "x = (i, S)" by (cases x)
    from mem x have S: "S \<in> set qs" by (auto simp: in_set_enumerate_eq)
    from AnyList_possibilities_card [OF assms(1) qs S assms(2)]
    have "finite S" "S \<subseteq> {0..<length (cards hand)}" by simp_all
    then have "set (result_order it k i S) \<subseteq> {0..<length (cards hand)}"
      using result_order_set [OF assms(2)] by simp
    from all_same_colour_total [OF this]
    show "\<exists>b. (case x of (i, S) \<Rightarrow> all_same_colour hand (result_order it k i S)) = Inr b"
      unfolding x by simp
  qed
  then show ?thesis by (auto simp: SameColourList_possibilities_def qs)
qed

lemma SameColourList_possibilities_subset:
  assumes "SameColourList_possibilities it k hand = Inr ps" "S \<in> set ps"
  shows "\<exists>qs. AnyList_possibilities it k hand = Inr qs \<and> S \<in> set qs"
proof -
  from assms(1) obtain qs kept where qs: "AnyList_possibilities it k hand = Inr qs"
    and kept: "filter_err (\<lambda>(i, S). all_same_colour hand (result_order it k i S))
                 (enumerate 0 qs) = Inr kept"
    and ps: "ps = map snd kept"
    by (auto simp: SameColourList_possibilities_def split: sum.splits)
  from assms(2) ps obtain i where "(i, S) \<in> set kept" by auto
  with filter_err_subset [OF kept] have "(i, S) \<in> set (enumerate 0 qs)" by blast
  then have "S \<in> set qs" by (auto simp: in_set_enumerate_eq)
  with qs show ?thesis by blast
qed

lemma SameColourList_possibilities_card:
  assumes "1 \<le> k" "SameColourList_possibilities it k hand = Inr ps" "S \<in> set ps"
    "iteration_ok it"
  shows "finite S \<and> card S = nat k \<and> S \<subseteq> {0..<length (cards hand)}"
proof -
  from SameColourList_possibilities_subset [OF assms(2,3)] obtain qs
    where qs: "AnyList_possibilities it k hand = Inr qs" and S: "S \<in> set qs"
    by blast
  from AnyList_possibilities_card [OF assms(1) qs S assms(4)] show ?thesis .
qed

lemma matches_in_hand:
  "distinct (map fst (filter P (enumerate 0 cs))) \<and>
   set (map fst (filter P (enumerate 0 cs))) \<subseteq> {0..<length cs}"
proof -
  have "distinct (map fst (enumerate 0 cs))" by simp
  then have "distinct (map fst (filter P (enumerate 0 cs)))" by (rule distinct_map_filter)
  moreover have "set (map fst (filter P (enumerate 0 cs))) \<subseteq> {0..<length cs}"
    by (auto simp: in_set_enumerate_eq)
  ultimately show ?thesis by simp
qed

lemma subsets_card:
  assumes "distinct xs" "0 \<le> k" "set xs \<subseteq> A"
    "(if int (length xs) < k then Inr []
      else if int (length xs) = k then Inr [set xs]
      else internal_possibilities {} xs (int (length xs) - k)) = Inr ps"
    "S \<in> set ps"
  shows "finite S \<and> card S = nat k \<and> S \<subseteq> A"
proof -
  from choose_subsets [OF assms(1,2)] assms(4)
  have "set ps = {S. S \<subseteq> set xs \<and> card S = nat k}" by simp
  with assms(5) have "S \<subseteq> set xs" "card S = nat k" by simp_all
  moreover from this(1) have "finite S" by (rule finite_subset) simp
  ultimately show ?thesis using assms(3) by blast
qed

lemma SameNumber_possibilities_card:
  assumes "0 \<le> k" "SameNumber_possibilities it k hand = Inr ps" "S \<in> set ps"
  shows "finite S \<and> card S = nat k \<and> S \<subseteq> {0..<length (cards hand)}"
proof -
  from for_extend_elems [OF assms(2) [unfolded SameNumber_possibilities_def] assms(3)]
  obtain cand zs where zs: "SameNumber_find_matches k hand (fst cand) (snd cand) = Inr zs"
    and S: "S \<in> set zs" by blast
  have m: "distinct (SameNumber_matches hand (snd cand))"
    "set (SameNumber_matches hand (snd cand)) \<subseteq> {0..<length (cards hand)}"
    unfolding SameNumber_matches_def using matches_in_hand by blast+
  show ?thesis
    by (rule subsets_card [OF m(1) assms(1) m(2) zs [unfolded SameNumber_find_matches_def Let_def] S])
qed

lemma SameColour_possibilities_card:
  assumes "0 \<le> k" "SameColour_possibilities it k hand = Inr ps" "S \<in> set ps"
  shows "finite S \<and> card S = nat k \<and> S \<subseteq> {0..<length (cards hand)}"
proof -
  from for_extend_elems [OF assms(2) [unfolded SameColour_possibilities_def] assms(3)]
  obtain cand zs where zs: "SameColour_find_matches k hand (fst cand) (snd cand) = Inr zs"
    and S: "S \<in> set zs" by blast
  have m: "distinct (SameColour_matches hand (fst cand))"
    "set (SameColour_matches hand (fst cand)) \<subseteq> {0..<length (cards hand)}"
    unfolding SameColour_matches_def using matches_in_hand by blast+
  show ?thesis
    by (rule subsets_card [OF m(1) assms(1) m(2) zs [unfolded SameColour_find_matches_def Let_def] S])
qed

lemma leaf_card:
  assumes "leaf c" "well_formed c" "possibilities it c hand = Inr ps" "S \<in> set ps"
    "iteration_ok it"
  shows "finite S \<and> int (card S) = required_number c \<and> S \<subseteq> {0..<length (cards hand)}"
proof (cases c)
  case (SameNumber k)
  with assms SameNumber_possibilities_card [of k it hand ps S] show ?thesis by simp
next
  case (SameColour k)
  with assms SameColour_possibilities_card [of k it hand ps S] show ?thesis by simp
next
  case (AnyList k)
  with assms AnyList_possibilities_card [of k it hand ps S] show ?thesis by simp
next
  case (SameColourList k)
  with assms SameColourList_possibilities_card [of k it hand ps S] show ?thesis by simp
next
  case (GroupCondition cs)
  with assms(1) show ?thesis by simp
qed

lemma sequence_err_total:
  "(\<And>r. r \<in> set rs \<Longrightarrow> \<exists>x. r = Inr x) \<Longrightarrow> \<exists>xs. sequence_err rs = Inr xs"
proof (induction rs)
  case Nil
  then show ?case by simp
next
  case (Cons r rs)
  obtain x where "r = Inr x" using Cons.prems [of r] by auto
  moreover obtain xs where "sequence_err rs = Inr xs" using Cons by fastforce
  ultimately show ?case by simp
qed

lemma sequence_err_Inr:
  "sequence_err rs = Inr xs \<Longrightarrow> rs = map Inr xs"
proof (induction rs arbitrary: xs)
  case Nil
  then show ?case by simp
next
  case (Cons r rs)
  from Cons.prems obtain x ys where "r = Inr x" "sequence_err rs = Inr ys" "xs = x # ys"
    by (auto split: sum.splits)
  with Cons.IH [of ys] show ?case by simp
qed

lemma sequence_err_map_Inr: "sequence_err (map Inr xs) = Inr xs"
  by (induction xs) simp_all

lemma possibilities_total:
  "well_formed c \<Longrightarrow> iteration_ok it \<Longrightarrow> \<exists>ps. possibilities it c hand = Inr ps"
proof (induction c)
  case (SameNumber k)
  show ?case using SameNumber_possibilities_total [of it k hand] by simp
next
  case (SameColour k)
  show ?case using SameColour_possibilities_total [of it k hand] by simp
next
  case (AnyList k)
  then show ?case using AnyList_possibilities_total [of k it hand] by simp
next
  case (SameColourList k)
  then show ?case using SameColourList_possibilities_total [of k it hand] by simp
next
  case (GroupCondition cs)
  have "\<exists>xs. sequence_err (map (\<lambda>c. possibilities it c hand) cs) = Inr xs"
  proof (rule sequence_err_total)
    fix r assume "r \<in> set (map (\<lambda>c. possibilities it c hand) cs)"
    then obtain c where "c \<in> set cs" "r = possibilities it c hand" by auto
    with GroupCondition show "\<exists>x. r = Inr x" by auto
  qed
  then show ?case by auto
qed

section \<open>GroupCondition: the fold chooses disjoint sets\<close>

lemma disjoint_unions_mem:
  "(S \<in> set (disjoint_unions as bs)) =
   (\<exists>A \<in> set as. \<exists>B \<in> set bs. A \<inter> B = {} \<and> S = A \<union> B)"
  unfolding disjoint_unions_def by (simp add: image_iff) blast

lemma foldl_disjoint_unions_elim:
  "S \<in> set (foldl disjoint_unions acc Ls) \<Longrightarrow>
   \<exists>A \<in> set acc. \<exists>parts. chosen parts Ls \<and> (\<forall>P \<in> set parts. A \<inter> P = {}) \<and>
      S = A \<union> \<Union> (set parts)"
proof (induction Ls arbitrary: acc)
  case Nil
  then have "chosen [] [] \<and> (\<forall>P \<in> set []. S \<inter> P = {}) \<and> S = S \<union> \<Union> (set [])"
    by (simp add: chosen_def)
  with Nil show ?case by (intro bexI [of _ S] exI [of _ "[]"]) simp_all
next
  case (Cons L Ls)
  from Cons.prems have "S \<in> set (foldl disjoint_unions (disjoint_unions acc L) Ls)" by simp
  from Cons.IH [OF this] obtain A' parts where A': "A' \<in> set (disjoint_unions acc L)"
    and ch: "chosen parts Ls" and dis: "\<forall>P \<in> set parts. A' \<inter> P = {}"
    and S: "S = A' \<union> \<Union> (set parts)"
    by blast
  from A' obtain A B where A: "A \<in> set acc" and B: "B \<in> set L" and AB: "A \<inter> B = {}"
    and A'eq: "A' = A \<union> B"
    unfolding disjoint_unions_mem by blast
  have 1: "chosen (B # parts) (L # Ls)"
    using ch B dis A'eq by (auto simp: chosen_def)
  have 2: "\<forall>P \<in> set (B # parts). A \<inter> P = {}"
    using AB dis A'eq by auto
  have 3: "S = A \<union> \<Union> (set (B # parts))"
    using S A'eq by auto
  from A 1 2 3 show ?case by blast
qed

lemma foldl_disjoint_unions_intro:
  "A \<in> set acc \<Longrightarrow> chosen parts Ls \<Longrightarrow> \<forall>P \<in> set parts. A \<inter> P = {} \<Longrightarrow>
   A \<union> \<Union> (set parts) \<in> set (foldl disjoint_unions acc Ls)"
proof (induction Ls arbitrary: acc A parts)
  case Nil
  then show ?case by (simp add: chosen_def)
next
  case (Cons L Ls)
  from Cons.prems(2) obtain B rest where parts: "parts = B # rest" and B: "B \<in> set L"
    and ch: "chosen rest Ls" and Br: "\<forall>t \<in> set rest. B \<inter> t = {}"
    by (auto simp: chosen_def list_all2_Cons1)
  have AB: "A \<inter> B = {}" and Ar: "\<forall>P \<in> set rest. A \<inter> P = {}"
    using Cons.prems(3) parts by simp_all
  have 1: "A \<union> B \<in> set (disjoint_unions acc L)"
    unfolding disjoint_unions_mem using Cons.prems(1) B AB by blast
  have 2: "\<forall>P \<in> set rest. (A \<union> B) \<inter> P = {}"
    using Ar Br by blast
  from Cons.IH [OF 1 ch 2] have "A \<union> B \<union> \<Union> (set rest) \<in> set (foldl disjoint_unions (disjoint_unions acc L) Ls)" .
  moreover have "A \<union> \<Union> (set parts) = A \<union> B \<union> \<Union> (set rest)"
    unfolding parts by auto
  ultimately show ?case by simp
qed

lemma group_fold_elim:
  assumes "S \<in> set (group_fold Ls)"
  shows "\<exists>parts. chosen parts Ls \<and> S = \<Union> (set parts)"
proof (cases Ls)
  case Nil
  with assms show ?thesis by simp
next
  case (Cons L rest)
  with assms have "S \<in> set (foldl disjoint_unions L rest)" by simp
  from foldl_disjoint_unions_elim [OF this] obtain A parts where A: "A \<in> set L"
    and ch: "chosen parts rest" and dis: "\<forall>P \<in> set parts. A \<inter> P = {}"
    and S: "S = A \<union> \<Union> (set parts)"
    by blast
  have "chosen (A # parts) (L # rest)" using A ch dis by (simp add: chosen_def)
  moreover have "S = \<Union> (set (A # parts))" using S by simp
  ultimately show ?thesis unfolding Cons by blast
qed

lemma group_fold_nonempty:
  "(group_fold Ls \<noteq> []) = (Ls \<noteq> [] \<and> (\<exists>parts. chosen parts Ls))"
proof
  assume "group_fold Ls \<noteq> []"
  then obtain S where S: "S \<in> set (group_fold Ls)" by (cases "group_fold Ls") auto
  then have "Ls \<noteq> []" by auto
  with group_fold_elim [OF S] show "Ls \<noteq> [] \<and> (\<exists>parts. chosen parts Ls)" by blast
next
  assume "Ls \<noteq> [] \<and> (\<exists>parts. chosen parts Ls)"
  then obtain L rest parts where Ls: "Ls = L # rest" and ch: "chosen parts (L # rest)"
    by (cases Ls) auto
  from ch obtain A ps where parts: "parts = A # ps" and A: "A \<in> set L"
    and ch': "chosen ps rest" and dis: "\<forall>t \<in> set ps. A \<inter> t = {}"
    by (auto simp: chosen_def list_all2_Cons1)
  from foldl_disjoint_unions_intro [OF A ch' dis]
  have "foldl disjoint_unions L rest \<noteq> []" by auto
  then show "group_fold Ls \<noteq> []" unfolding Ls by simp
qed

lemma disjoint_union_card:
  "list_all2 (\<lambda>P c. finite P \<and> int (card P) = required_number c) parts subs \<Longrightarrow>
   disjoint_list parts \<Longrightarrow>
   finite (\<Union> (set parts)) \<and> int (card (\<Union> (set parts))) = sum_list (map required_number subs)"
proof (induction parts subs rule: list_all2_induct)
  case Nil
  then show ?case by simp
next
  case (Cons P parts c subs)
  from Cons.prems have d: "disjoint_list parts" and dis: "\<forall>t \<in> set parts. P \<inter> t = {}"
    by simp_all
  from Cons.IH [OF d] have fin: "finite (\<Union> (set parts))"
    and c: "int (card (\<Union> (set parts))) = sum_list (map required_number subs)"
    by simp_all
  have "P \<inter> \<Union> (set parts) = {}" using dis by blast
  with fin Cons.hyps(1) have "card (P \<union> \<Union> (set parts)) = card P + card (\<Union> (set parts))"
    by (simp add: card_Un_disjoint)
  with fin c Cons.hyps(1) show ?case by simp
qed

lemma group_possibilities_parts:
  assumes "possibilities it (GroupCondition subs) hand = Inr ps" "S \<in> set ps"
  shows "\<exists>parts. length parts = length subs \<and> disjoint_list parts \<and> S = \<Union> (set parts) \<and>
           (\<forall>i < length subs. \<exists>qs. possibilities it (subs ! i) hand = Inr qs \<and> parts ! i \<in> set qs)"
proof -
  from assms(1) obtain Ls where seq: "sequence_err (map (\<lambda>c. possibilities it c hand) subs) = Inr Ls"
    and ps: "ps = group_fold Ls"
    by (auto split: sum.splits)
  from sequence_err_Inr [OF seq] have m: "map (\<lambda>c. possibilities it c hand) subs = map Inr Ls" .
  then have len: "length Ls = length subs" by (metis length_map)
  have nth: "\<And>i. i < length subs \<Longrightarrow> possibilities it (subs ! i) hand = Inr (Ls ! i)"
  proof -
    fix i assume i: "i < length subs"
    then have "possibilities it (subs ! i) hand = map (\<lambda>c. possibilities it c hand) subs ! i" by simp
    also have "\<dots> = map Inr Ls ! i" by (simp only: m)
    also have "\<dots> = Inr (Ls ! i)" using i len by simp
    finally show "possibilities it (subs ! i) hand = Inr (Ls ! i)" .
  qed
  from assms(2) ps group_fold_elim [of S Ls] obtain parts where ch: "chosen parts Ls"
    and S: "S = \<Union> (set parts)"
    by blast
  from ch have l2: "length Ls = length parts" and mem: "\<And>i. i < length Ls \<Longrightarrow> parts ! i \<in> set (Ls ! i)"
    and d: "disjoint_list parts"
    by (simp_all add: chosen_def list_all2_conv_all_nth)
  have "\<forall>i < length subs. \<exists>qs. possibilities it (subs ! i) hand = Inr qs \<and> parts ! i \<in> set qs"
    using nth mem len by simp
  with l2 len d S show ?thesis by auto
qed

lemma disjoint_list_insert:
  "disjoint_list (ys1 @ x # ys2) =
   ((\<forall>t \<in> set (ys1 @ ys2). x \<inter> t = {}) \<and> disjoint_list (ys1 @ ys2))"
proof (induction ys1)
  case Nil
  then show ?case by simp
next
  case (Cons y ys1)
  have "(y \<inter> x = {}) = (x \<inter> y = {})" by (simp add: Int_commute)
  with Cons show ?case by auto
qed

lemma disjoint_list_mset: "mset xs = mset ys \<Longrightarrow> disjoint_list xs = disjoint_list ys"
proof (induction xs arbitrary: ys)
  case Nil
  then show ?case by simp
next
  case (Cons x xs)
  have "x \<in> set ys" using Cons.prems by (metis list.set_intros(1) mset_eq_setD)
  then obtain ys1 ys2 where ys: "ys = ys1 @ x # ys2" by (meson split_list)
  with Cons.prems have m: "mset xs = mset (ys1 @ ys2)" by simp
  then have s: "set xs = set (ys1 @ ys2)" by (rule mset_eq_setD)
  from Cons.IH [OF m] have "disjoint_list xs = disjoint_list (ys1 @ ys2)" .
  then show ?case unfolding ys disjoint_list_insert using s by simp
qed

lemma chosen_mset:
  assumes "mset Ls' = mset Ls" "chosen parts Ls"
  shows "\<exists>parts'. chosen parts' Ls'"
proof -
  from assms(2) have len: "length Ls = length parts"
    and all: "\<forall>(L, P) \<in> set (zip Ls parts). P \<in> set L" and d: "disjoint_list parts"
    by (simp_all add: chosen_def list_all2_iff)
  from ex_mset_zip_left [OF len assms(1)] obtain parts' where len': "length parts' = length Ls'"
    and z: "mset (zip Ls' parts') = mset (zip Ls parts)"
    by blast
  from z have zs: "set (zip Ls' parts') = set (zip Ls parts)" by (rule mset_eq_setD)
  from z have "mset (map snd (zip Ls' parts')) = mset (map snd (zip Ls parts))"
    by (simp only: mset_map)
  then have "mset parts' = mset parts" using len len' by simp
  then have "disjoint_list parts'" using d disjoint_list_mset by blast
  moreover have "list_all2 (\<lambda>L P. P \<in> set L) Ls' parts'"
    unfolding list_all2_iff zs using all len' by simp
  ultimately show ?thesis unfolding chosen_def by blast
qed

lemma sequence_err_mset:
  assumes "mset rs' = mset rs" "sequence_err rs = Inr xs"
  shows "\<exists>xs'. sequence_err rs' = Inr xs' \<and> mset xs' = mset xs"
proof -
  from sequence_err_Inr [OF assms(2)] have rs: "rs = map Inr xs" .
  have s: "set rs' = set rs" using assms(1) by (rule mset_eq_setD)
  let ?xs' = "map projr rs'"
  have "map Inr ?xs' = rs'"
  proof -
    have "\<forall>r \<in> set rs'. Inr (projr r) = r" using s rs by auto
    then have "map (\<lambda>r. Inr (projr r)) rs' = map (\<lambda>r. r) rs'" by (intro map_cong) simp_all
    then show ?thesis by (simp add: comp_def)
  qed
  then have 1: "sequence_err rs' = Inr ?xs'" using sequence_err_map_Inr [of ?xs'] by simp
  have a: "mset (map projr rs') = mset (map projr rs)"
    using assms(1) by (simp only: mset_map)
  have b: "map projr rs = xs"
    unfolding rs by (induction xs) simp_all
  have 2: "mset ?xs' = mset xs" unfolding a b by (rule refl)
  from 1 2 show ?thesis by blast
qed

lemma group_nonempty_mset:
  assumes "mset subs' = mset subs"
    "possibilities it (GroupCondition subs) hand = Inr ps" "ps \<noteq> []"
  shows "\<exists>ps'. possibilities it (GroupCondition subs') hand = Inr ps' \<and> ps' \<noteq> []"
proof -
  from assms(2) obtain Ls where seq: "sequence_err (map (\<lambda>c. possibilities it c hand) subs) = Inr Ls"
    and ps: "ps = group_fold Ls"
    by (auto split: sum.splits)
  have "mset (map (\<lambda>c. possibilities it c hand) subs') = mset (map (\<lambda>c. possibilities it c hand) subs)"
    using assms(1) by (simp only: mset_map)
  from sequence_err_mset [OF this seq] obtain Ls' where
    seq': "sequence_err (map (\<lambda>c. possibilities it c hand) subs') = Inr Ls'"
    and m: "mset Ls' = mset Ls"
    by blast
  from assms(3) ps have "Ls \<noteq> []" and "\<exists>parts. chosen parts Ls"
    using group_fold_nonempty [of Ls] by simp_all
  then obtain parts where "chosen parts Ls" by blast
  from chosen_mset [OF m this] have "\<exists>parts'. chosen parts' Ls'" .
  moreover have "Ls' \<noteq> []" using m \<open>Ls \<noteq> []\<close> by auto
  ultimately have "group_fold Ls' \<noteq> []" using group_fold_nonempty [of Ls'] by simp
  then show ?thesis using seq' by simp
qed

lemma group_error_mset:
  assumes "mset subs' = mset subs"
    "possibilities it (GroupCondition subs) hand = Inr ps"
  shows "\<exists>ps'. possibilities it (GroupCondition subs') hand = Inr ps'"
proof -
  from assms(2) obtain Ls where seq: "sequence_err (map (\<lambda>c. possibilities it c hand) subs) = Inr Ls"
    by (auto split: sum.splits)
  have "mset (map (\<lambda>c. possibilities it c hand) subs') = mset (map (\<lambda>c. possibilities it c hand) subs)"
    using assms(1) by (simp only: mset_map)
  from sequence_err_mset [OF this seq] show ?thesis by auto
qed

section \<open>Required numbers below 1\<close>

lemma get_combinations_error: "get_combinations it xs = Inl e \<Longrightarrow> e = RecursionError"
  by (induction it xs arbitrary: e rule: get_combinations.induct) (auto split: sum.splits)

lemma for_extend_raises:
  "(\<forall>j \<in> set js. \<forall>e. f j = Inl e \<longrightarrow> e = E) \<Longrightarrow> j \<in> set js \<Longrightarrow> f j = Inl E \<Longrightarrow>
   for_extend js f = Inl E"
proof (induction js)
  case Nil
  then show ?case by simp
next
  case (Cons i js)
  show ?case
  proof (cases "f i")
    case (Inl e)
    from Cons.prems(1) Inl have "e = E" by auto
    with Inl show ?thesis by simp
  next
    case (Inr ys)
    then have "j \<noteq> i" using Cons.prems(3) by auto
    then have j: "j \<in> set js" using Cons.prems(2) by simp
    have all: "\<forall>j \<in> set js. \<forall>e. f j = Inl e \<longrightarrow> e = E" using Cons.prems(1) by auto
    from Cons.IH [OF all j Cons.prems(3)] Inr show ?thesis by simp
  qed
qed

lemma get_possibilities_nonpositive:
  assumes "k \<le> 0"
  shows "get_possibilities it k st = Inl RecursionError"
  unfolding get_possibilities_def
proof (rule for_extend_raises)
  show "\<forall>j \<in> set [0..<nat (int (length st) - k + 1)].
          \<forall>e. get_combinations it (py_slice st (int j) (k + int j)) = Inl e \<longrightarrow> e = RecursionError"
    using get_combinations_error by blast
next
  show "nat (- k) \<in> set [0..<nat (int (length st) - k + 1)]" using assms by simp
next
  have "py_slice st (int (nat (- k))) (k + int (nat (- k))) = []"
    using assms by (simp add: py_slice_def Let_def)
  then show "get_combinations it (py_slice st (int (nat (- k))) (k + int (nat (- k))))
               = Inl RecursionError"
    by simp
qed

lemma AnyList_nonpositive:
  assumes "k \<le> 0"
  shows "AnyList_possibilities it k hand = Inl RecursionError"
  unfolding AnyList_possibilities_def
  by (subst ListBased_loop.simps) (simp add: Let_def get_possibilities_nonpositive [OF assms])

lemma SameColourList_nonpositive:
  assumes "k \<le> 0"
  shows "SameColourList_possibilities it k hand = Inl RecursionError"
  by (simp add: SameColourList_possibilities_def AnyList_nonpositive [OF assms])

section \<open>The order of iteration changes the order of the results only\<close>

lemma iteration_ok_ascending: "iteration_ok ascending"
  by (simp add: iteration_ok_def ascending_def)

lemma same_sets_refl: "same_sets r r"
  by (cases r) simp_all

lemma same_sets_Inr: "same_sets r (Inr qs) \<Longrightarrow> \<exists>ps. r = Inr ps \<and> set ps = set qs"
  by (cases r) simp_all

lemma for_extend_same:
  "(\<forall>j \<in> set js. same_sets (f j) (g j)) \<Longrightarrow> same_sets (for_extend js f) (for_extend js g)"
proof (induction js)
  case Nil
  then show ?case by simp
next
  case (Cons j js)
  then have h: "same_sets (f j) (g j)" and t: "same_sets (for_extend js f) (for_extend js g)"
    by simp_all
  show ?case
  proof (cases "f j")
    case (Inl e)
    with h show ?thesis by (cases "g j") simp_all
  next
    case fj: (Inr ys)
    with h obtain ys' where gj: "g j = Inr ys'" and y: "set ys = set ys'"
      by (cases "g j") simp_all
    show ?thesis
    proof (cases "for_extend js f")
      case (Inl e)
      with t fj gj show ?thesis by (cases "for_extend js g") simp_all
    next
      case (Inr zs)
      with t obtain zs' where "for_extend js g = Inr zs'" "set zs = set zs'"
        by (cases "for_extend js g") simp_all
      with fj gj y Inr show ?thesis by simp
    qed
  qed
qed

lemma get_combinations_same:
  "iteration_ok it \<Longrightarrow> iteration_ok it' \<Longrightarrow> \<forall>s \<in> set xs. finite s \<Longrightarrow>
   same_sets (get_combinations it xs) (get_combinations it' xs)"
proof (induction it xs rule: get_combinations.induct)
  case (1 it)
  then show ?case by simp
next
  case (2 it s)
  then have "set (slot_order it s) = s" "set (slot_order it' s) = s"
    by (simp_all add: slot_order_set)
  then show ?case by simp
next
  case (3 it s t rest)
  then have o: "set (slot_order it s) = s" "set (slot_order it' s) = s"
    by (simp_all add: slot_order_set)
  from 3 have ih: "same_sets (get_combinations it (t # rest)) (get_combinations it' (t # rest))"
    by simp
  show ?case
  proof (cases "get_combinations it (t # rest)")
    case (Inl e)
    with ih show ?thesis by (cases "get_combinations it' (t # rest)") simp_all
  next
    case (Inr subs)
    with ih obtain subs' where s': "get_combinations it' (t # rest) = Inr subs'"
      and eq: "set subs = set subs'"
      by (cases "get_combinations it' (t # rest)") simp_all
    show ?thesis using Inr s' eq o by simp
  qed
qed

lemma py_slice_subset: "set (py_slice xs a b) \<subseteq> set xs"
proof -
  have "set (take m (drop n xs)) \<subseteq> set xs" for m n
    using set_take_subset [of m "drop n xs"] set_drop_subset [of n xs] by blast
  then show ?thesis by (simp add: py_slice_def Let_def)
qed

lemma get_possibilities_same:
  assumes "iteration_ok it" "iteration_ok it'" "\<forall>s \<in> set st. finite s"
  shows "same_sets (get_possibilities it k st) (get_possibilities it' k st)"
  unfolding get_possibilities_def
proof (rule for_extend_same, rule ballI)
  fix j
  have "\<forall>s \<in> set (py_slice st (int j) (k + int j)). finite s"
    using assms(3) py_slice_subset [of st "int j" "k + int j"] by blast
  then show "same_sets (get_combinations it (py_slice st (int j) (k + int j)))
                 (get_combinations it' (py_slice st (int j) (k + int j)))"
    by (rule get_combinations_same [OF assms(1,2)])
qed

lemma ListBased_loop_same:
  "0 \<le> n \<Longrightarrow> distinct (map fst cs) \<Longrightarrow> iteration_ok it \<Longrightarrow> iteration_ok it' \<Longrightarrow>
   set acc = set acc' \<Longrightarrow>
   same_sets (ListBased_loop it k cs n acc) (ListBased_loop it' k cs n acc')"
proof (induction it k cs n acc arbitrary: acc' rule: ListBased_loop.induct)
  case (1 it k cs n acc)
  show ?case
  proof (cases "n \<le> 12")
    case True
    let ?js = "filter (\<lambda>card. number (snd card) = - 1) cs"
    let ?r = "streak_loop cs n ?js []"
    have inv: "streak_inv cs n ?js []"
      using "1.prems"(2,1) by (rule streak_inv_start)
    from streak_loop_slots [OF inv] have "\<forall>s \<in> set (snd ?r). s \<subseteq> fst ` set cs" by simp
    then have fin: "\<forall>s \<in> set (snd ?r). finite s"
      by (meson List.finite_set finite_imageI finite_subset)
    have gp: "same_sets (get_possibilities it k (snd ?r)) (get_possibilities it' k (snd ?r))"
      using "1.prems"(3,4) fin by (rule get_possibilities_same)
    have n': "0 \<le> fst ?r"
      using streak_loop_advances [of n cs ?js "[]"] "1.prems"(1) by simp
    show ?thesis
    proof (cases "get_possibilities it k (snd ?r)")
      case (Inl e)
      with gp have "get_possibilities it' k (snd ?r) = Inl e"
        by (cases "get_possibilities it' k (snd ?r)") simp_all
      with Inl True show ?thesis
        by (subst ListBased_loop.simps, subst (2) ListBased_loop.simps) (simp add: Let_def)
    next
      case (Inr qs)
      with gp obtain qs' where q': "get_possibilities it' k (snd ?r) = Inr qs'"
        and eq: "set qs = set qs'"
        by (cases "get_possibilities it' k (snd ?r)") simp_all
      have e1: "ListBased_loop it k cs n acc = ListBased_loop it k cs (fst ?r) (acc @ qs)"
        using True Inr by (subst ListBased_loop.simps) (simp add: Let_def)
      have e2: "ListBased_loop it' k cs n acc' = ListBased_loop it' k cs (fst ?r) (acc' @ qs')"
        using True q' by (subst ListBased_loop.simps) (simp add: Let_def)
      have "set (acc @ qs) = set (acc' @ qs')" using "1.prems"(5) eq by simp
      from "1.IH" [OF True refl refl Inr n' "1.prems"(2,3,4) this]
      show ?thesis unfolding e1 e2 .
    qed
  next
    case False
    then show ?thesis using "1.prems"(5)
      by (subst ListBased_loop.simps, subst (2) ListBased_loop.simps) simp
  qed
qed

lemma AnyList_possibilities_same:
  assumes "iteration_ok it" "iteration_ok it'"
  shows "same_sets (AnyList_possibilities it k hand) (AnyList_possibilities it' k hand)"
  unfolding AnyList_possibilities_def
  using AnyList_candidates_fst [of hand] assms
  by (intro ListBased_loop_same) simp_all

section \<open>The test hand and the hand with a gap at 10\<close>

lemma startswith_refl: "startswith a a"
  by (induction a) simp_all

lemma str_in_refl: "str_in a a"
  by (cases a) (simp_all add: startswith_refl)

lemma all_same_colour_one_colour:
  assumes "\<forall>p \<in> set ps. p < length (cards hand) \<and> colour (cards hand ! p) = c"
  shows "all_same_colour hand ps = Inr True"
proof -
  let ?targets = "filter (\<lambda>pos. number (cards hand ! pos) \<noteq> - 1) ps"
  have in_range: "(\<exists>pos \<in> set ps. \<not> pos < length (cards hand)) = False"
    using assms by blast
  show ?thesis
  proof (cases "?targets = []")
    case True
    then have len: "(length ?targets = 0) = True" by simp
    show ?thesis unfolding all_same_colour_def Let_def in_range len by simp
  next
    case False
    then have len: "(length ?targets = 0) = False" by simp
    from False have "0 < length ?targets" by simp
    then have "?targets ! 0 \<in> set ?targets" by (rule nth_mem)
    moreover have "set ?targets \<subseteq> set ps" by (rule filter_is_subset)
    ultimately have "?targets ! 0 \<in> set ps" by (rule subsetD [rotated])
    with assms have t: "colour (cards hand ! (?targets ! 0)) = c" by blast
    have "\<forall>pos \<in> set ps. str_in c (colour (cards hand ! pos))"
    proof
      fix pos assume "pos \<in> set ps"
      with assms have "colour (cards hand ! pos) = c" by blast
      then show "str_in c (colour (cards hand ! pos))" by (simp add: str_in_refl)
    qed
    then have all: "list_all (\<lambda>pos. str_in (colour (cards hand ! (?targets ! 0)))
                       (colour (cards hand ! pos))) ps = True"
      unfolding t by (simp add: list_all_iff)
    show ?thesis unfolding all_same_colour_def Let_def in_range len all by simp
  qed
qed

lemma test_hand_runs_ascending:
  "case AnyList_possibilities ascending 3 test_hand of
     Inl e \<Rightarrow> False | Inr ps \<Rightarrow> {0, 1, 2} \<in> set ps"
  by code_simp

lemma test_hand_run:
  assumes "iteration_ok it"
  shows "\<exists>ps. AnyList_possibilities it 3 test_hand = Inr ps \<and> {0, 1, 2} \<in> set ps"
proof -
  from test_hand_runs_ascending obtain qs
    where qs: "AnyList_possibilities ascending 3 test_hand = Inr qs" and m: "{0, 1, 2} \<in> set qs"
    by (cases "AnyList_possibilities ascending 3 test_hand") simp_all
  from AnyList_possibilities_same [OF assms iteration_ok_ascending, of 3 test_hand] qs
  obtain ps where "AnyList_possibilities it 3 test_hand = Inr ps" "set ps = set qs"
    using same_sets_Inr by metis
  with m show ?thesis by blast
qed

lemma test_hand_colour_run:
  assumes "iteration_ok it"
  shows "\<exists>ps. SameColourList_possibilities it 3 test_hand = Inr ps \<and> {0, 1, 2} \<in> set ps"
proof -
  from test_hand_run [OF assms] obtain qs
    where qs: "AnyList_possibilities it 3 test_hand = Inr qs" and m: "{0, 1, 2} \<in> set qs"
    by blast
  obtain ps where ps: "SameColourList_possibilities it 3 test_hand = Inr ps"
    using SameColourList_possibilities_total [of 3 it test_hand] assms by auto
  let ?p = "\<lambda>(i, S). all_same_colour test_hand (result_order it 3 i S)"
  from ps qs obtain kept where kept: "filter_err ?p (enumerate 0 qs) = Inr kept"
    and pk: "ps = map snd kept"
    by (auto simp: SameColourList_possibilities_def split: sum.splits)
  from m obtain i where i: "i < length qs" "qs ! i = {0, 1, 2}" by (auto simp: in_set_conv_nth)
  then have mem: "(i, {0, 1, 2}) \<in> set (enumerate 0 qs)" by (auto simp: in_set_enumerate_eq)
  have o: "set (result_order it 3 i {0, 1, 2}) = {0, 1, 2}"
    using assms by (simp add: result_order_set)
  have "\<forall>p \<in> set (result_order it 3 i {0, 1, 2}).
          p < length (cards test_hand) \<and> colour (cards test_hand ! p) = ''blue''"
    unfolding o by (simp add: test_hand_def test_cards_def Card_init_def)
  then have "all_same_colour test_hand (result_order it 3 i {0, 1, 2}) = Inr True"
    by (rule all_same_colour_one_colour)
  then have "?p (i, {0, 1, 2}) = Inr True" by simp
  from filter_err_mem [OF kept mem this] have "{0, 1, 2} \<in> set ps"
    unfolding pk by force
  with ps show ?thesis by blast
qed

lemma test_hand_red_matches: "SameColour_matches test_hand ''red'' = [3, 4, 5, 6, 7, 8, 9]"
  by (simp add: SameColour_matches_def test_hand_def test_cards_def Card_init_def enumerate_eq_zip
      upt_conv_Cons)

lemma test_hand_colour_set:
  assumes "iteration_ok it"
  shows "\<exists>ps. SameColour_possibilities it 4 test_hand = Inr ps \<and> {3, 4, 5, 6} \<in> set ps"
proof -
  obtain ps where ps: "SameColour_possibilities it 4 test_hand = Inr ps"
    using SameColour_possibilities_total by blast
  have "''red'' \<in> set (map colour (filter (\<lambda>card. \<not> str_in ''black'' (colour card)) (cards test_hand)))"
    by (simp add: test_hand_def test_cards_def Card_init_def)
  then have "''red'' \<in> set (colours_order it
      (map colour (filter (\<lambda>card. \<not> str_in ''black'' (colour card)) (cards test_hand))))"
    using assms by (simp only: iteration_ok_def)
  then have cand: "(''red'', - 1) \<in> set (SameColour_candidates it test_hand)"
    by (auto simp: SameColour_candidates_def)
  have d: "distinct (SameColour_matches test_hand ''red'')" by (simp add: test_hand_red_matches)
  from choose_subsets [OF d, of 4] obtain zs
    where zs: "SameColour_find_matches 4 test_hand ''red'' (- 1) = Inr zs"
      and s: "set zs = {S. S \<subseteq> set (SameColour_matches test_hand ''red'') \<and> card S = nat 4}"
    unfolding SameColour_find_matches_def Let_def by auto
  have "{3, 4, 5, 6} \<in> set zs" unfolding s test_hand_red_matches by simp
  from for_extend_mem [OF ps [unfolded SameColour_possibilities_def] cand _ this] zs
  have "{3, 4, 5, 6} \<in> set ps" by simp
  with ps show ?thesis by blast
qed

lemma test_hand_group_member:
  assumes "iteration_ok it"
  shows "\<exists>ps. possibilities it (GroupCondition [SameColourList 3, SameColour 4]) test_hand = Inr ps
           \<and> {0, 1, 2, 3, 4, 5, 6} \<in> set ps"
proof -
  from test_hand_colour_run [OF assms] obtain A
    where A: "SameColourList_possibilities it 3 test_hand = Inr A" and a: "{0, 1, 2} \<in> set A"
    by blast
  from test_hand_colour_set [OF assms] obtain B
    where B: "SameColour_possibilities it 4 test_hand = Inr B" and b: "{3, 4, 5, 6} \<in> set B"
    by blast
  have p: "possibilities it (GroupCondition [SameColourList 3, SameColour 4]) test_hand
           = Inr (disjoint_unions A B)"
    by (simp add: A B)
  have "{0, 1, 2::nat} \<inter> {3, 4, 5, 6} = {}" by simp
  moreover have "{0, 1, 2, 3, 4, 5, 6::nat} = {0, 1, 2} \<union> {3, 4, 5, 6}" by auto
  ultimately have "{0, 1, 2, 3, 4, 5, 6} \<in> set (disjoint_unions A B)"
    unfolding disjoint_unions_mem using a b by blast
  with p show ?thesis by simp
qed




section \<open>SameNumber: the contribution of every candidate key\<close>

lemma list_all2_choice:
  "(\<And>x. x \<in> set xs \<Longrightarrow> \<exists>y. P x y) \<Longrightarrow> \<exists>ys. list_all2 P xs ys"
proof (induction xs)
  case Nil
  then show ?case by simp
next
  case (Cons x xs)
  obtain y where "P x y" using Cons.prems [of x] by auto
  moreover obtain ys where "list_all2 P xs ys" using Cons by fastforce
  ultimately have "list_all2 P (x # xs) (y # ys)" by simp
  then show ?case by blast
qed

lemma for_extend_concat:
  "list_all2 (\<lambda>x ys. f x = Inr ys) xs yss \<Longrightarrow> for_extend xs f = Inr (concat yss)"
  by (induction xs yss rule: list_all2_induct) simp_all

lemma SameNumber_candidates_keys:
  assumes "iteration_ok it"
  shows "distinct (SameNumber_candidates it hand) \<and>
         set (SameNumber_candidates it hand) =
           {(''any'', n) | n. n \<noteq> - 1 \<and> n \<in> number ` set (cards hand)}"
proof -
  let ?xs = "map number (filter (\<lambda>card. number card \<noteq> - 1) (cards hand))"
  from assms have d: "distinct (numbers_order it ?xs)" and s: "set (numbers_order it ?xs) = set ?xs"
    by (simp_all add: iteration_ok_def)
  have "inj_on (\<lambda>n::int. (''any'', n)) (set (numbers_order it ?xs))" by (rule inj_onI) simp
  with d have 1: "distinct (SameNumber_candidates it hand)"
    unfolding SameNumber_candidates_def by (simp add: distinct_map)
  have "set (SameNumber_candidates it hand) = (\<lambda>n. (''any'', n)) ` set ?xs"
    unfolding SameNumber_candidates_def by (simp add: s)
  also have "\<dots> = {(''any'', n) | n. n \<noteq> - 1 \<and> n \<in> number ` set (cards hand)}"
    by auto
  finally show ?thesis using 1 by simp
qed

lemma SameNumber_find_matches_key:
  assumes "0 \<le> k"
  shows "\<exists>ps. SameNumber_find_matches k hand c n = Inr ps
            \<and> length ps =
                card {i. i < length (cards hand) \<and>
                        (number (cards hand ! i) = n \<or> number (cards hand ! i) = - 1)}
                  choose nat k
            \<and> distinct ps
            \<and> set ps =
                {S. S \<subseteq> {i. i < length (cards hand) \<and>
                            (number (cards hand ! i) = n \<or> number (cards hand ! i) = - 1)}
                    \<and> card S = nat k}"
proof -
  have pos: "distinct (SameNumber_matches hand n)"
    "set (SameNumber_matches hand n) =
       {i. i < length (cards hand) \<and>
           (number (cards hand ! i) = n \<or> number (cards hand ! i) = - 1)}"
    using SameNumber_matches_positions [of hand n] by simp_all
  have len: "length (SameNumber_matches hand n) =
       card {i. i < length (cards hand) \<and>
           (number (cards hand ! i) = n \<or> number (cards hand ! i) = - 1)}"
    using pos distinct_card [of "SameNumber_matches hand n"] by simp
  from choose_subsets [OF pos(1) assms]
  show ?thesis
    unfolding SameNumber_find_matches_def Let_def len pos(2) .
qed

lemma SameNumber_possibilities_keys:
  assumes "0 \<le> k"
  shows "\<exists>pss. SameNumber_possibilities it k hand = Inr (concat pss) \<and>
     list_all2 (\<lambda>candidate ps.
        SameNumber_find_matches k hand (fst candidate) (snd candidate) = Inr ps \<and>
        length ps =
          card {i. i < length (cards hand) \<and>
                  (number (cards hand ! i) = snd candidate \<or> number (cards hand ! i) = - 1)}
            choose nat k \<and>
        distinct ps \<and>
        set ps =
          {S. S \<subseteq> {i. i < length (cards hand) \<and>
                  (number (cards hand ! i) = snd candidate \<or> number (cards hand ! i) = - 1)}
              \<and> card S = nat k})
      (SameNumber_candidates it hand) pss"
proof -
  let ?P = "\<lambda>candidate ps.
        SameNumber_find_matches k hand (fst candidate) (snd candidate) = Inr ps \<and>
        length ps =
          card {i. i < length (cards hand) \<and>
                  (number (cards hand ! i) = snd candidate \<or> number (cards hand ! i) = - 1)}
            choose nat k \<and>
        distinct ps \<and>
        set ps =
          {S. S \<subseteq> {i. i < length (cards hand) \<and>
                  (number (cards hand ! i) = snd candidate \<or> number (cards hand ! i) = - 1)}
              \<and> card S = nat k}"
  have "\<exists>pss. list_all2 ?P (SameNumber_candidates it hand) pss"
    by (rule list_all2_choice) (rule SameNumber_find_matches_key [OF assms])
  then obtain pss where pss: "list_all2 ?P (SameNumber_candidates it hand) pss" by blast
  then have "list_all2 (\<lambda>candidate ps.
        SameNumber_find_matches k hand (fst candidate) (snd candidate) = Inr ps)
      (SameNumber_candidates it hand) pss"
    by (rule list_all2_mono) simp
  then have "SameNumber_possibilities it k hand = Inr (concat pss)"
    unfolding SameNumber_possibilities_def by (rule for_extend_concat)
  with pss show ?thesis by blast
qed

section \<open>The claims\<close>

text \<open>
  Claim C1. For every hand, every iteration order and every required count \<open>k \<ge> 0\<close>
  (in particular \<open>k\<close> in 1..10), \<open>possibilities\<close> of \<open>SameNumber k\<close> returns the
  concatenation of one list per candidate key, in the order of the keys. The keys
  are the numbers of the hand other than -1, each once. For a key \<open>n\<close> let \<open>M\<close> be the
  positions whose card has the number \<open>n\<close> or is a wildcard: the list of the key is
  what \<open>find_matches\<close> returns for it, it has no duplicates, it contains exactly the
  subsets of \<open>M\<close> of size \<open>k\<close>, and its length is \<open>card M choose k\<close>, which is 0 when
  \<open>M\<close> has fewer than \<open>k\<close> positions.
\<close>

theorem SameNumber_possibilities_choose:
  assumes "iteration_ok it" "0 \<le> k"
  shows "\<exists>pss. possibilities it (SameNumber k) hand = Inr (concat pss) \<and>
     list_all2 (\<lambda>candidate ps.
        SameNumber_find_matches k hand (fst candidate) (snd candidate) = Inr ps \<and>
        length ps =
          card {i. i < length (cards hand) \<and>
                  (number (cards hand ! i) = snd candidate \<or> number (cards hand ! i) = - 1)}
            choose nat k \<and>
        distinct ps \<and>
        set ps =
          {S. S \<subseteq> {i. i < length (cards hand) \<and>
                  (number (cards hand ! i) = snd candidate \<or> number (cards hand ! i) = - 1)}
              \<and> card S = nat k})
      (SameNumber_candidates it hand) pss \<and>
     distinct (SameNumber_candidates it hand) \<and>
     set (SameNumber_candidates it hand) =
       {(''any'', n) | n. n \<noteq> - 1 \<and> n \<in> number ` set (cards hand)}"
  using SameNumber_possibilities_keys [OF assms(2), of it hand]
    SameNumber_candidates_keys [OF assms(1), of hand]
  by simp

lemma test_hand_candidates:
  "SameNumber_candidates ascending test_hand =
     [(''any'', 1), (''any'', 2), (''any'', 3), (''any'', 4), (''any'', 5), (''any'', 6)]"
  by (simp add: SameNumber_candidates_def ascending_def test_hand_def test_cards_def Card_init_def)

lemma test_hand_matches_6: "SameNumber_matches test_hand 6 = [5, 6, 7, 8, 9]"
  by (simp add: SameNumber_matches_def test_hand_def test_cards_def Card_init_def enumerate_eq_zip
      upt_conv_Cons)

lemma test_hand_positions_6:
  "{i. i < length (cards test_hand) \<and>
       (number (cards test_hand ! i) = 6 \<or> number (cards test_hand ! i) = - 1)}
   = {5, 6, 7, 8, 9}"
  using SameNumber_matches_positions [of test_hand 6] by (simp add: test_hand_matches_6)

theorem SameNumber_possibilities_choose_witness:
  "iteration_ok ascending \<and> (0::int) \<le> 3 \<and>
   (\<exists>pss. possibilities ascending (SameNumber 3) test_hand = Inr (concat pss) \<and>
      length pss = 6 \<and> length (pss ! 5) = 10 \<and> distinct (pss ! 5) \<and>
      set (pss ! 5) = {S. S \<subseteq> {5, 6, 7, 8, 9} \<and> card S = 3})"
proof -
  from SameNumber_possibilities_choose [OF iteration_ok_ascending, of 3 test_hand]
  obtain pss where p: "possibilities ascending (SameNumber 3) test_hand = Inr (concat pss)"
    and l: "list_all2 (\<lambda>candidate ps.
        SameNumber_find_matches 3 test_hand (fst candidate) (snd candidate) = Inr ps \<and>
        length ps =
          card {i. i < length (cards test_hand) \<and>
                  (number (cards test_hand ! i) = snd candidate \<or>
                   number (cards test_hand ! i) = - 1)}
            choose nat 3 \<and>
        distinct ps \<and>
        set ps =
          {S. S \<subseteq> {i. i < length (cards test_hand) \<and>
                  (number (cards test_hand ! i) = snd candidate \<or>
                   number (cards test_hand ! i) = - 1)}
              \<and> card S = nat 3})
      (SameNumber_candidates ascending test_hand) pss"
    by auto
  from l have len: "length pss = 6"
    by (simp add: list_all2_lengthD [symmetric] test_hand_candidates)
  have c: "card {5, 6, 7, 8, 9::nat} choose nat 3 = 10" by (simp add: numeral_eq_Suc)
  have nth: "SameNumber_candidates ascending test_hand ! 5 = (''any'', 6)"
    by (simp add: test_hand_candidates)
  from list_all2_nthD [OF l, of 5]
  have "length (pss ! 5) = 10 \<and> distinct (pss ! 5) \<and>
        set (pss ! 5) = {S. S \<subseteq> {5, 6, 7, 8, 9} \<and> card S = 3}"
    unfolding nth snd_conv test_hand_positions_6 c using len
    by (simp add: test_hand_candidates)
  with p len iteration_ok_ascending show ?thesis by auto
qed


text \<open>
  Claim C3. Let the sub-conditions of a GroupCondition be Set and Run conditions with
  required numbers in 1..10. Every set the group returns is the union of one set per
  sub-condition, each returned by that sub-condition and of its required size, and
  these sets are pairwise disjoint; so the size of the returned set is the sum of
  the required numbers.
\<close>

theorem group_positions_disjoint:
  assumes "iteration_ok it" "\<forall>c \<in> set subs. leaf c \<and> well_formed c"
    "possibilities it (GroupCondition subs) hand = Inr ps" "S \<in> set ps"
  shows "int (card S) = sum_list (map required_number subs) \<and>
         (\<exists>parts. length parts = length subs \<and> disjoint_list parts \<and> S = \<Union> (set parts) \<and>
            (\<forall>i < length subs. \<exists>qs. possibilities it (subs ! i) hand = Inr qs \<and>
                parts ! i \<in> set qs \<and> int (card (parts ! i)) = required_number (subs ! i)))"
proof -
  from group_possibilities_parts [OF assms(3,4)] obtain parts where len: "length parts = length subs"
    and d: "disjoint_list parts" and S: "S = \<Union> (set parts)"
    and nth: "\<forall>i < length subs. \<exists>qs. possibilities it (subs ! i) hand = Inr qs \<and> parts ! i \<in> set qs"
    by blast
  have each: "\<forall>i < length subs. finite (parts ! i) \<and> int (card (parts ! i)) = required_number (subs ! i)"
  proof (intro allI impI)
    fix i assume i: "i < length subs"
    with nth obtain qs where qs: "possibilities it (subs ! i) hand = Inr qs" "parts ! i \<in> set qs"
      by blast
    from i assms(2) have "leaf (subs ! i)" "well_formed (subs ! i)" by simp_all
    from leaf_card [OF this qs assms(1)]
    show "finite (parts ! i) \<and> int (card (parts ! i)) = required_number (subs ! i)" by simp
  qed
  then have "list_all2 (\<lambda>P c. finite P \<and> int (card P) = required_number c) parts subs"
    using len by (simp add: list_all2_conv_all_nth)
  from disjoint_union_card [OF this d] have "int (card S) = sum_list (map required_number subs)"
    using S by simp
  moreover have "\<forall>i < length subs. \<exists>qs. possibilities it (subs ! i) hand = Inr qs \<and>
                parts ! i \<in> set qs \<and> int (card (parts ! i)) = required_number (subs ! i)"
    using nth each by blast
  ultimately show ?thesis using len d S by blast
qed

theorem group_positions_disjoint_witness:
  "iteration_ok ascending \<and>
   leaf (SameColourList 3) \<and> well_formed (SameColourList 3) \<and>
   leaf (SameColour 4) \<and> well_formed (SameColour 4) \<and>
   (\<exists>ps. possibilities ascending (GroupCondition [SameColourList 3, SameColour 4]) test_hand = Inr ps
      \<and> {0, 1, 2, 3, 4, 5, 6} \<in> set ps \<and> int (card {0, 1, 2, 3, 4, 5, 6::nat}) = 3 + 4)"
proof -
  have wf: "\<forall>c \<in> set [SameColourList 3, SameColour 4]. leaf c \<and> well_formed c" by simp
  from test_hand_group_member [OF iteration_ok_ascending] obtain ps
    where ps: "possibilities ascending (GroupCondition [SameColourList 3, SameColour 4]) test_hand
                 = Inr ps"
      and S: "{0, 1, 2, 3, 4, 5, 6} \<in> set ps"
    by blast
  from group_positions_disjoint [OF iteration_ok_ascending wf ps S]
  have "int (card {0, 1, 2, 3, 4, 5, 6::nat}) = 3 + 4" by simp
  with ps S iteration_ok_ascending show ?thesis by auto
qed

text \<open>
  Claim C4. Two lists of sub-conditions that are permutations of each other (the same
  multiset) give GroupConditions with the same outcome on every hand: one returns a
  non-empty list exactly when the other does, and \<open>hand_passed\<close> returns true, or
  false, for one exactly when it does for the other.
\<close>

theorem group_order_independent:
  assumes "mset subs' = mset subs"
  shows "((\<exists>ps. possibilities it (GroupCondition subs) hand = Inr ps \<and> ps \<noteq> []) =
          (\<exists>ps. possibilities it (GroupCondition subs') hand = Inr ps \<and> ps \<noteq> [])) \<and>
         ((hand_passed it (GroupCondition subs) hand = Inr True) =
          (hand_passed it (GroupCondition subs') hand = Inr True)) \<and>
         ((hand_passed it (GroupCondition subs) hand = Inr False) =
          (hand_passed it (GroupCondition subs') hand = Inr False))"
proof -
  have 1: "(\<exists>ps. possibilities it (GroupCondition subs) hand = Inr ps \<and> ps \<noteq> []) =
         (\<exists>ps. possibilities it (GroupCondition subs') hand = Inr ps \<and> ps \<noteq> [])"
    using group_nonempty_mset [OF assms, of it hand]
      group_nonempty_mset [OF assms [symmetric], of it hand]
    by blast
  have 2: "(\<exists>ps. possibilities it (GroupCondition subs) hand = Inr ps) =
         (\<exists>ps. possibilities it (GroupCondition subs') hand = Inr ps)"
    using group_error_mset [OF assms, of it hand] group_error_mset [OF assms [symmetric], of it hand]
    by blast
  have t: "\<And>c. (hand_passed it c hand = Inr True) = (\<exists>ps. possibilities it c hand = Inr ps \<and> ps \<noteq> [])"
    by (auto simp: hand_passed_def split: sum.splits)
  have f: "\<And>c. (hand_passed it c hand = Inr False) =
      ((\<exists>ps. possibilities it c hand = Inr ps) \<and>
       \<not> (\<exists>ps. possibilities it c hand = Inr ps \<and> ps \<noteq> []))"
    by (auto simp: hand_passed_def split: sum.splits)
  have 3: "(hand_passed it (GroupCondition subs) hand = Inr True) =
         (hand_passed it (GroupCondition subs') hand = Inr True)"
    unfolding t by (rule 1)
  have 4: "(hand_passed it (GroupCondition subs) hand = Inr False) =
         (hand_passed it (GroupCondition subs') hand = Inr False)"
    unfolding f 1 2 by (rule refl)
  from 1 3 4 show ?thesis by blast
qed

theorem group_order_independent_witness:
  "mset [SameColour 4, SameColourList 3] = mset [SameColourList 3, SameColour 4] \<and>
   hand_passed ascending (GroupCondition [SameColourList 3, SameColour 4]) test_hand = Inr True \<and>
   hand_passed ascending (GroupCondition [SameColour 4, SameColourList 3]) test_hand = Inr True"
proof -
  have m: "mset [SameColour 4, SameColourList 3] = mset [SameColourList 3, SameColour 4]"
    by simp
  from test_hand_group_member [OF iteration_ok_ascending]
  have p: "hand_passed ascending (GroupCondition [SameColourList 3, SameColour 4]) test_hand
             = Inr True"
    by (auto simp: hand_passed_def)
  with group_order_independent [OF m, of ascending test_hand] m show ?thesis by simp
qed

text \<open>
  Claim C5, at concrete required numbers: constructing \<open>SameNumber 11\<close>, \<open>AnyList 0\<close> and
  \<open>SameColour (-3)\<close> succeeds.
\<close>

theorem construction_accepts_out_of_range:
  "SameNumber_init 11 = Inr (SameNumber 11) \<and> AnyList_init 0 = Inr (AnyList 0)
   \<and> SameColour_init (- 3) = Inr (SameColour (- 3))"
  by (simp add: SameNumber_init_def AnyList_init_def SameColour_init_def)

text \<open>
  Claim C5 as amended. No constructor checks the required number: constructing a Set
  or Run condition succeeds for every integer and keeps it, and a GroupCondition is
  built with the required number 0. A required number outside 1..10 shows at
  evaluation only: a Set condition still returns a list, and a Run condition with a
  required number of 0 or less raises RecursionError.
\<close>

theorem construction_never_fails:
  "SameNumber_init k = Inr (SameNumber k) \<and> SameColour_init k = Inr (SameColour k) \<and>
   AnyList_init k = Inr (AnyList k) \<and> SameColourList_init k = Inr (SameColourList k) \<and>
   GroupCondition_init cs = Inr (GroupCondition cs) \<and> required_number (GroupCondition cs) = 0 \<and>
   (\<exists>ps. possibilities it (SameNumber k) hand = Inr ps) \<and>
   (\<exists>ps. possibilities it (SameColour k) hand = Inr ps) \<and>
   (k \<le> 0 \<longrightarrow> possibilities it (AnyList k) hand = Inl RecursionError \<and>
             possibilities it (SameColourList k) hand = Inl RecursionError)"
  using SameNumber_possibilities_total [of it k hand] SameColour_possibilities_total [of it k hand]
    AnyList_nonpositive [of k it hand] SameColourList_nonpositive [of k it hand]
  by (simp add: SameNumber_init_def SameColour_init_def AnyList_init_def SameColourList_init_def
      GroupCondition_init_def)

theorem construction_never_fails_witness:
  "(0::int) \<le> 0 \<and> AnyList_init 0 = Inr (AnyList 0) \<and>
   possibilities ascending (AnyList 0) test_hand = Inl RecursionError \<and>
   (\<exists>ps. possibilities ascending (SameNumber 0) test_hand = Inr ps)"
  using construction_never_fails [of 0 "[]" ascending test_hand] by simp

text \<open>
  Claim C6. On the test hand of sim.py, which \<open>Hand_init\<close> accepts, the GroupCondition of
  \<open>SameColourList 3\<close> and \<open>SameColour 4\<close> passes for every iteration order: its list of
  possibilities is not empty and contains the positions 0..2 of the blue run together
  with the positions 3..6 of the red cards.
\<close>

theorem test_hand_passes:
  assumes "iteration_ok it"
  shows "Hand_init test_cards = Inr test_hand \<and>
         hand_passed it (GroupCondition [SameColourList 3, SameColour 4]) test_hand = Inr True \<and>
         (\<exists>ps. possibilities it (GroupCondition [SameColourList 3, SameColour 4]) test_hand = Inr ps
            \<and> 0 < length ps \<and> {0, 1, 2, 3, 4, 5, 6} \<in> set ps)"
proof -
  have h: "Hand_init test_cards = Inr test_hand"
    by (simp add: Hand_init_def test_hand_def test_cards_def)
  from test_hand_group_member [OF assms] obtain ps
    where ps: "possibilities it (GroupCondition [SameColourList 3, SameColour 4]) test_hand = Inr ps"
      and S: "{0, 1, 2, 3, 4, 5, 6} \<in> set ps"
    by blast
  from S have l: "0 < length ps" by (cases ps) auto
  from ps l have "hand_passed it (GroupCondition [SameColourList 3, SameColour 4]) test_hand
                    = Inr True"
    by (simp add: hand_passed_def)
  with h ps S l show ?thesis by blast
qed

theorem test_hand_passes_witness:
  "iteration_ok ascending \<and>
   hand_passed ascending (GroupCondition [SameColourList 3, SameColour 4]) test_hand = Inr True"
  using test_hand_passes [OF iteration_ok_ascending] iteration_ok_ascending by simp

text \<open>
  Claim C7. For every hand (of ten cards or not), every iteration order and every
  condition whose required numbers, at every level of nesting, are in 1..10,
  \<open>possibilities\<close> returns a list and \<open>hand_passed\<close> returns a truth value: neither
  raises. The model is a total function, so the call also terminates.
\<close>

theorem enumeration_never_raises:
  assumes "well_formed c" "iteration_ok it"
  shows "(\<exists>ps. possibilities it c hand = Inr ps) \<and> (\<exists>b. hand_passed it c hand = Inr b)"
proof -
  from possibilities_total [OF assms] obtain ps where "possibilities it c hand = Inr ps" by blast
  then show ?thesis by (simp add: hand_passed_def)
qed

theorem enumeration_never_raises_witness:
  "well_formed (GroupCondition [SameNumber 5, GroupCondition [AnyList 9, SameColourList 10]]) \<and>
   iteration_ok ascending \<and>
   (\<exists>ps. possibilities ascending
           (GroupCondition [SameNumber 5, GroupCondition [AnyList 9, SameColourList 10]])
           gap_hand = Inr ps)"
proof -
  have wf: "well_formed (GroupCondition [SameNumber 5, GroupCondition [AnyList 9, SameColourList 10]])"
    by simp
  from enumeration_never_raises [OF wf iteration_ok_ascending, of gap_hand] wf
    iteration_ok_ascending
  show ?thesis by blast
qed

text \<open>
  Claim C8. \<open>hand_passed\<close> is one function for all conditions. It returns true exactly
  when \<open>possibilities\<close> returns a list of length greater than 0, false exactly when
  \<open>possibilities\<close> returns the empty list, and it raises exactly the error that
  \<open>possibilities\<close> raises.
\<close>

theorem hand_passed_iff:
  "(hand_passed it c hand = Inr True) = (\<exists>ps. possibilities it c hand = Inr ps \<and> length ps > 0) \<and>
   (hand_passed it c hand = Inr False) = (\<exists>ps. possibilities it c hand = Inr ps \<and> length ps = 0) \<and>
   (hand_passed it c hand = Inl e) = (possibilities it c hand = Inl e)"
  by (cases "possibilities it c hand") (auto simp: hand_passed_def)

theorem hand_passed_iff_witness:
  "hand_passed ascending (GroupCondition []) test_hand = Inr False \<and>
   possibilities ascending (GroupCondition []) test_hand = Inr [] \<and>
   hand_passed ascending (AnyList 0) test_hand = Inl RecursionError"
  using hand_passed_iff [of ascending "GroupCondition []" test_hand]
    hand_passed_iff [of ascending "AnyList 0" test_hand RecursionError]
    AnyList_nonpositive [of 0 ascending test_hand]
  by simp

text \<open>
  Claim C9. \<open>Hand_init\<close> fails, with InvalidHandSize, exactly when the list of cards
  does not have length 10, and returns the hand with these cards exactly when it
  has. It takes the cards only, so it fails before any condition is evaluated.
\<close>

theorem Hand_init_iff:
  "(Hand_init cs = Inl InvalidHandSize) = (length cs \<noteq> 10) \<and>
   (Hand_init cs = Inr \<lparr>cards = cs\<rparr>) = (length cs = 10) \<and>
   (Hand_init cs = Inl RecursionError) = False \<and> (Hand_init cs = Inl IndexError) = False"
  by (auto simp: Hand_init_def)

theorem Hand_init_iff_witness:
  "Hand_init test_cards = Inr \<lparr>cards = test_cards\<rparr> \<and> Hand_init [] = Inl InvalidHandSize
   \<and> Hand_init (Card_init ''red'' 1 # test_cards) = Inl InvalidHandSize"
  using Hand_init_iff [of test_cards] Hand_init_iff [of "[]"]
    Hand_init_iff [of "Card_init ''red'' 1 # test_cards"]
  by (simp add: test_cards_def)

end
